theory Spec2Isabelle
  imports Main "HOL-Library.Word"
begin

unbundle bit_operations_syntax

section \<open>OneButtonTiny: data model\<close>

text \<open>
  The class \<open>OneButtonTiny\<close> of \<open>OneButtonTiny.h\<close>, one record field per data
  member (the leading underscore of the member names is dropped).  A callback slot is a
  function pointer: \<open>None\<close> is \<open>nullptr\<close>, \<open>Some a\<close> the address of a user function.
  \<open>uint8_t\<close> is \<open>8 word\<close>, \<open>uint16_t\<close> is \<open>16 word\<close> and the value of
  \<open>millis()\<close> (\<open>unsigned long\<close>) is \<open>32 word\<close>.
\<close>

type_synonym callbackFunction = "nat option"

type_synonym stateMachine_t = "8 word"

record OneButtonTiny =
  click_ms :: "16 word"
  press_ms :: "16 word"
  startTime :: "16 word"
  lastDebounceTime :: "16 word"
  clickFunc :: callbackFunction
  doubleClickFunc :: callbackFunction
  longPressStartFunc :: callbackFunction
  pin :: "8 word"
  debounce_ms :: "8 word"
  flags :: "8 word"
  state :: stateMachine_t

text \<open>The user callbacks the state machine can invoke, named by their slot.\<close>

datatype event = Click | DoubleClick | LongPressStart

subsection \<open>Constants of the header\<close>

definition FLAG_BUTTON_PRESSED :: "8 word" where "FLAG_BUTTON_PRESSED = 0x80"
definition FLAG_LAST_LEVEL :: "8 word" where "FLAG_LAST_LEVEL = 0x40"
definition FLAG_DEBOUNCED :: "8 word" where "FLAG_DEBOUNCED = 0x20"
definition STATE_MASK :: "8 word" where "STATE_MASK = 0x1C"
definition STATE_SHIFT :: nat where "STATE_SHIFT = 2"
definition CLICKS_MASK :: "8 word" where "CLICKS_MASK = 0x03"

definition OCS_INIT :: stateMachine_t where "OCS_INIT = 0"
definition OCS_DOWN :: stateMachine_t where "OCS_DOWN = 1"
definition OCS_UP :: stateMachine_t where "OCS_UP = 2"
definition OCS_COUNT :: stateMachine_t where "OCS_COUNT = 3"
definition OCS_PRESS :: stateMachine_t where "OCS_PRESS = 4"
definition OCS_PRESSEND :: stateMachine_t where "OCS_PRESSEND = 5"

subsection \<open>Inline helpers for the packed flags byte\<close>

definition setState :: "OneButtonTiny \<Rightarrow> stateMachine_t \<Rightarrow> OneButtonTiny" where
  "setState b s =
     b\<lparr>flags := (flags b AND NOT STATE_MASK) OR (push_bit STATE_SHIFT s AND STATE_MASK)\<rparr>"

definition getState :: "OneButtonTiny \<Rightarrow> stateMachine_t" where
  "getState b = drop_bit STATE_SHIFT (flags b AND STATE_MASK)"

definition setClicks :: "OneButtonTiny \<Rightarrow> 8 word \<Rightarrow> OneButtonTiny" where
  "setClicks b c = b\<lparr>flags := (flags b AND NOT CLICKS_MASK) OR (c AND CLICKS_MASK)\<rparr>"

definition getClicks :: "OneButtonTiny \<Rightarrow> 8 word" where
  "getClicks b = flags b AND CLICKS_MASK"

definition getButtonPressed :: "OneButtonTiny \<Rightarrow> bool" where
  "getButtonPressed b = (flags b AND FLAG_BUTTON_PRESSED \<noteq> 0)"

definition getLastLevel :: "OneButtonTiny \<Rightarrow> bool" where
  "getLastLevel b = (flags b AND FLAG_LAST_LEVEL \<noteq> 0)"

definition setLastLevel :: "OneButtonTiny \<Rightarrow> bool \<Rightarrow> OneButtonTiny" where
  "setLastLevel b v =
     (if v then b\<lparr>flags := flags b OR FLAG_LAST_LEVEL\<rparr>
      else b\<lparr>flags := flags b AND NOT FLAG_LAST_LEVEL\<rparr>)"

definition getDebouncedLevel :: "OneButtonTiny \<Rightarrow> bool" where
  "getDebouncedLevel b = (flags b AND FLAG_DEBOUNCED \<noteq> 0)"

definition setDebouncedLevel :: "OneButtonTiny \<Rightarrow> bool \<Rightarrow> OneButtonTiny" where
  "setDebouncedLevel b v =
     (if v then b\<lparr>flags := flags b OR FLAG_DEBOUNCED\<rparr>
      else b\<lparr>flags := flags b AND NOT FLAG_DEBOUNCED\<rparr>)"

subsection \<open>Time helpers\<close>

text \<open>
  \<open>_now()\<close> is \<open>(uint16_t)(millis() >> 2)\<close>; the reading of \<open>millis()\<close> is the
  argument.  \<open>_elapsed(start)\<close> is \<open>(_now() - start) << 2\<close>, returned as
  \<open>uint16_t\<close>: the difference and the shift are both taken modulo \<open>2 ^ 16\<close>.
\<close>

definition now :: "32 word \<Rightarrow> 16 word" where
  "now millis = ucast (drop_bit 2 millis)"

definition elapsed :: "16 word \<Rightarrow> 32 word \<Rightarrow> 16 word" where
  "elapsed start millis = push_bit 2 (now millis - start)"

section \<open>Operations\<close>

text \<open>
  The constructor: \<open>_flags\<close> is 0, with the polarity bit set when the button is active
  high; every other member has its default initialiser.  \<open>pinMode\<close> only configures
  the hardware.
\<close>

definition OneButtonTiny_new :: "8 word \<Rightarrow> bool \<Rightarrow> bool \<Rightarrow> OneButtonTiny" where
  "OneButtonTiny_new p activeLow pullupActive =
     \<lparr>click_ms = 400, press_ms = 800, startTime = 0, lastDebounceTime = 0,
      clickFunc = None, doubleClickFunc = None, longPressStartFunc = None,
      pin = p, debounce_ms = 50,
      flags = (if activeLow then 0 else 0 OR FLAG_BUTTON_PRESSED),
      state = OCS_INIT\<rparr>"

definition setDebounceMs :: "OneButtonTiny \<Rightarrow> 8 word \<Rightarrow> OneButtonTiny" where
  "setDebounceMs b ms = b\<lparr>debounce_ms := ms\<rparr>"

definition setClickMs :: "OneButtonTiny \<Rightarrow> 16 word \<Rightarrow> OneButtonTiny" where
  "setClickMs b ms = b\<lparr>click_ms := ms\<rparr>"

definition setPressMs :: "OneButtonTiny \<Rightarrow> 16 word \<Rightarrow> OneButtonTiny" where
  "setPressMs b ms = b\<lparr>press_ms := ms\<rparr>"

definition attachClick :: "OneButtonTiny \<Rightarrow> callbackFunction \<Rightarrow> OneButtonTiny" where
  "attachClick b newFunction = b\<lparr>clickFunc := newFunction\<rparr>"

definition attachDoubleClick :: "OneButtonTiny \<Rightarrow> callbackFunction \<Rightarrow> OneButtonTiny" where
  "attachDoubleClick b newFunction = b\<lparr>doubleClickFunc := newFunction\<rparr>"

definition attachLongPressStart :: "OneButtonTiny \<Rightarrow> callbackFunction \<Rightarrow> OneButtonTiny" where
  "attachLongPressStart b newFunction = b\<lparr>longPressStartFunc := newFunction\<rparr>"

definition isIdle :: "OneButtonTiny \<Rightarrow> bool" where
  "isIdle b = (state b = OCS_INIT)"

definition reset :: "OneButtonTiny \<Rightarrow> OneButtonTiny" where
  "reset b = (setClicks (setState b OCS_INIT) 0)\<lparr>startTime := 0, state := OCS_INIT\<rparr>"

text \<open>
  \<open>_debounce(level)\<close>, with the reading of \<open>millis()\<close> it takes.  The comparison is
  between the \<open>uint16_t\<close> tick difference and \<open>(uint8_t)(_debounce_ms >> 2)\<close>.
\<close>

definition debounce :: "OneButtonTiny \<Rightarrow> bool \<Rightarrow> 32 word \<Rightarrow> OneButtonTiny \<times> bool" where
  "debounce b level millis =
     (let b' =
        (if getLastLevel b = level then
           (if ucast (drop_bit 2 (debounce_ms b)) \<le> now millis - lastDebounceTime b
            then setDebouncedLevel b level else b)
         else setLastLevel (b\<lparr>lastDebounceTime := now millis\<rparr>) level)
      in (b', getDebouncedLevel b'))"

text \<open>
  \<open>_fsm(activeLevel)\<close>, with the reading of \<open>millis()\<close> it takes.  The result is the
  object after the call and the callbacks invoked, in order.  The \<open>switch\<close> is over the
  three state bits, so the \<open>default\<close> branch is reached for the values 6 and 7.
\<close>

definition fsm_switch :: "OneButtonTiny \<Rightarrow> bool \<Rightarrow> 32 word \<Rightarrow> OneButtonTiny \<times> event list" where
  "fsm_switch b activeLevel millis =
     (let waitTime = elapsed (startTime b) millis;
          currentState = getState b
      in
        if currentState = OCS_INIT then
          (if activeLevel
           then (setClicks ((setState b OCS_DOWN)\<lparr>startTime := now millis\<rparr>) 0, [])
           else (b, []))
        else if currentState = OCS_DOWN then
          (if \<not> activeLevel
           then ((setState b OCS_UP)\<lparr>startTime := now millis\<rparr>, [])
           else if press_ms b < waitTime
           then (setState b OCS_PRESS,
                 if longPressStartFunc b \<noteq> None then [LongPressStart] else [])
           else (b, []))
        else if currentState = OCS_UP then
          (setState (setClicks b (getClicks b + 1)) OCS_COUNT, [])
        else if currentState = OCS_COUNT then
          (if activeLevel
           then ((setState b OCS_DOWN)\<lparr>startTime := now millis\<rparr>, [])
           else if click_ms b \<le> waitTime \<or> 2 \<le> getClicks b
           then
             (let clicks = getClicks b
              in (reset b,
                  if clicks = 1 \<and> clickFunc b \<noteq> None then [Click]
                  else if 2 \<le> clicks \<and> doubleClickFunc b \<noteq> None then [DoubleClick]
                  else []))
           else (b, []))
        else if currentState = OCS_PRESS then
          (if \<not> activeLevel
           then ((setState b OCS_PRESSEND)\<lparr>startTime := now millis\<rparr>, [])
           else (b, []))
        else if currentState = OCS_PRESSEND then
          (reset b, [])
        else
          (reset b, []))"

definition fsm :: "OneButtonTiny \<Rightarrow> bool \<Rightarrow> 32 word \<Rightarrow> OneButtonTiny \<times> event list" where
  "fsm b activeLevel millis =
     (let (b', evs) = fsm_switch b activeLevel millis
      in (b'\<lparr>state := getState b'\<rparr>, evs))"

text \<open>
  \<open>tick(bool)\<close> and \<open>tick(void)\<close>.  \<open>_debounce\<close> and \<open>_fsm\<close> each read the clock,
  so a tick takes two readings; \<open>tick(void)\<close> also takes the level \<open>digitalRead\<close>
  returns.
\<close>

definition tick :: "OneButtonTiny \<Rightarrow> bool \<Rightarrow> 32 word \<Rightarrow> 32 word \<Rightarrow> OneButtonTiny \<times> event list" where
  "tick b activeLevel millis1 millis2 =
     (let (b', lvl) = debounce b activeLevel millis1 in fsm b' lvl millis2)"

definition tick_pin :: "OneButtonTiny \<Rightarrow> bool \<Rightarrow> 32 word \<Rightarrow> 32 word \<Rightarrow> OneButtonTiny \<times> event list" where
  "tick_pin b rawLevel millis1 millis2 =
     (let activeLevel = (if getButtonPressed b then rawLevel else \<not> rawLevel)
      in tick b activeLevel millis1 millis2)"

section \<open>Sequences of calls\<close>

text \<open>
  The driver calls \<open>tick\<close> from its loop.  \<open>fsm_run\<close> advances the state machine
  through a trace of (debounced level, reading of \<open>millis()\<close>) pairs, one \<open>_fsm\<close>
  call per pair, and collects the callbacks invoked.  \<open>held\<close> and \<open>released\<close> build
  the part of a trace during which the level stays active or inactive.
\<close>

fun fsm_run :: "OneButtonTiny \<Rightarrow> (bool \<times> 32 word) list \<Rightarrow> OneButtonTiny \<times> event list" where
  "fsm_run b [] = (b, [])"
| "fsm_run b ((lvl, millis) # rest) =
     (let (b', evs) = fsm b lvl millis;
          (b'', evs') = fsm_run b' rest
      in (b'', evs @ evs'))"

definition held :: "32 word list \<Rightarrow> (bool \<times> 32 word) list" where
  "held ms = map (\<lambda>m. (True, m)) ms"

definition released :: "32 word list \<Rightarrow> (bool \<times> 32 word) list" where
  "released ms = map (\<lambda>m. (False, m)) ms"

text \<open>
  \<open>clock t\<close> is the reading of \<open>millis()\<close> at the true time \<open>t\<close> (milliseconds
  since start-up, unbounded): the 32-bit counter wraps.  \<open>tick_run\<close> calls
  \<open>tick(bool)\<close> once per pair (level, true time) of a trace; both clock readings of a
  call are taken at that time.
\<close>

definition clock :: "nat \<Rightarrow> 32 word" where
  "clock t = of_nat t"

fun tick_run :: "OneButtonTiny \<Rightarrow> (bool \<times> nat) list \<Rightarrow> OneButtonTiny \<times> event list" where
  "tick_run b [] = (b, [])"
| "tick_run b ((lvl, t) # rest) =
     (let (b', evs) = tick b lvl (clock t) (clock t);
          (b'', evs') = tick_run b' rest
      in (b'', evs @ evs'))"

text \<open>
  One press-release cycle: the call that sees the press, the calls during which the
  button stays down, the call that sees the release, and the next call, on which the
  release is counted (that call ignores its level).
\<close>

definition click_cycle ::
  "32 word \<Rightarrow> 32 word list \<Rightarrow> 32 word \<Rightarrow> bool \<Rightarrow> 32 word \<Rightarrow> (bool \<times> 32 word) list" where
  "click_cycle p hs r lvl c = (True, p) # held hs @ [(False, r), (lvl, c)]"

text \<open>The members the state machine never writes: thresholds and callback slots.\<close>

definition same_config :: "OneButtonTiny \<Rightarrow> OneButtonTiny \<Rightarrow> bool" where
  "same_config b' b \<longleftrightarrow>
     click_ms b' = click_ms b \<and> press_ms b' = press_ms b \<and>
     clickFunc b' = clickFunc b \<and> doubleClickFunc b' = doubleClickFunc b \<and>
     longPressStartFunc b' = longPressStartFunc b"

text \<open>
  What the state machine reads of the object: the thresholds and callback slots, the
  state bits and, in the states that use them, the click count and \<open>_startTime\<close>.
\<close>

definition in_fsm_state :: "OneButtonTiny \<Rightarrow> stateMachine_t \<Rightarrow> OneButtonTiny \<Rightarrow> bool" where
  "in_fsm_state b0 st b \<longleftrightarrow> same_config b b0 \<and> getState b = st"

definition in_state ::
  "OneButtonTiny \<Rightarrow> stateMachine_t \<Rightarrow> 8 word \<Rightarrow> 16 word \<Rightarrow> OneButtonTiny \<Rightarrow> bool" where
  "in_state b0 st n t b \<longleftrightarrow>
     same_config b b0 \<and> getState b = st \<and> getClicks b = n \<and> startTime b = t"

text \<open>
  \<open>fsm_triple P tr evs Q\<close>: from every object satisfying \<open>P\<close>, the trace \<open>tr\<close>
  invokes exactly the callbacks \<open>evs\<close> and leaves an object satisfying \<open>Q\<close>.
\<close>

definition fsm_triple ::
  "(OneButtonTiny \<Rightarrow> bool) \<Rightarrow> (bool \<times> 32 word) list \<Rightarrow> event list \<Rightarrow> (OneButtonTiny \<Rightarrow> bool) \<Rightarrow> bool" where
  "fsm_triple P tr evs Q \<longleftrightarrow>
     (\<forall>b. P b \<longrightarrow> snd (fsm_run b tr) = evs \<and> Q (fst (fsm_run b tr)))"

section \<open>Bits of the flags byte\<close>

text \<open>Each helper is characterised by the bits of \<open>_flags\<close> it reads or writes.\<close>

lemma mask_consts:
  "(0x1C :: 8 word) = push_bit 2 (mask 3)" "(3 :: 8 word) = mask 2" "(7 :: 8 word) = mask 3"
  by (simp_all add: mask_eq_exp_minus_1)

lemma flag_consts:
  "(0x80 :: 8 word) = push_bit 7 1" "(0x40 :: 8 word) = push_bit 6 1" "(0x20 :: 8 word) = push_bit 5 1"
  by simp_all

lemmas consts_defs = FLAG_BUTTON_PRESSED_def FLAG_LAST_LEVEL_def FLAG_DEBOUNCED_def STATE_MASK_def
  STATE_SHIFT_def CLICKS_MASK_def

lemmas OCS_defs = OCS_INIT_def OCS_DOWN_def OCS_UP_def OCS_COUNT_def OCS_PRESS_def OCS_PRESSEND_def

lemma getLastLevel_bit: "getLastLevel b = bit (flags b) 6"
  unfolding getLastLevel_def FLAG_LAST_LEVEL_def
  by (simp only: flag_consts bit_iff_and_push_bit_not_eq_0)

lemma getDebouncedLevel_bit: "getDebouncedLevel b = bit (flags b) 5"
  unfolding getDebouncedLevel_def FLAG_DEBOUNCED_def
  by (simp only: flag_consts bit_iff_and_push_bit_not_eq_0)

lemma getButtonPressed_bit: "getButtonPressed b = bit (flags b) 7"
  unfolding getButtonPressed_def FLAG_BUTTON_PRESSED_def
  by (simp only: flag_consts bit_iff_and_push_bit_not_eq_0)

lemma bit_flags_setState:
  "bit (flags (setState b s)) n = (if 2 \<le> n \<and> n < 5 then bit s (n - 2) else bit (flags b) n)"
  unfolding setState_def consts_defs mask_consts
  by (auto simp add: bit_simps dest: bit_imp_le_length)

lemma bit_flags_setClicks:
  "bit (flags (setClicks b c)) n = (if n < 2 then bit c n else bit (flags b) n)"
  unfolding setClicks_def consts_defs mask_consts
  by (auto simp add: bit_simps dest: bit_imp_le_length)

lemma bit_or_flag:
  "k < 8 \<Longrightarrow> bit (w OR push_bit k 1 :: 8 word) n = (n = k \<or> bit w n)"
  by (auto simp add: bit_simps)

lemma bit_and_not_flag:
  "k < 8 \<Longrightarrow> bit (w AND NOT (push_bit k 1) :: 8 word) n = (n \<noteq> k \<and> bit w n)"
  by (auto simp add: bit_simps dest: bit_imp_le_length)

lemmas bit_flag_simps =
  bit_or_flag [of 5, simplified] bit_or_flag [of 6, simplified]
  bit_and_not_flag [of 5, simplified] bit_and_not_flag [of 6, simplified]

lemma bit_flags_setLastLevel:
  "bit (flags (setLastLevel b v)) n = (if n = 6 then v else bit (flags b) n)"
  unfolding setLastLevel_def FLAG_LAST_LEVEL_def
  by (simp add: bit_flag_simps)

lemma bit_flags_setDebouncedLevel:
  "bit (flags (setDebouncedLevel b v)) n = (if n = 5 then v else bit (flags b) n)"
  unfolding setDebouncedLevel_def FLAG_DEBOUNCED_def
  by (simp add: bit_flag_simps)

lemma bit_getState: "bit (getState b) n = (n < 3 \<and> bit (flags b) (n + 2))"
  unfolding getState_def consts_defs mask_consts
  by (auto simp add: bit_simps)

lemma bit_getClicks: "bit (getClicks b) n = (n < 2 \<and> bit (flags b) n)"
  unfolding getClicks_def consts_defs mask_consts
  by (auto simp add: bit_simps)

section \<open>Getters after setters\<close>

lemma getState_setState: "getState (setState b s) = s AND 7"
  by (rule bit_word_eqI) (auto simp add: bit_getState bit_flags_setState mask_consts bit_simps)

lemma getState_setState_OCS [simp]:
  "getState (setState b OCS_INIT) = OCS_INIT"
  "getState (setState b OCS_DOWN) = OCS_DOWN"
  "getState (setState b OCS_UP) = OCS_UP"
  "getState (setState b OCS_COUNT) = OCS_COUNT"
  "getState (setState b OCS_PRESS) = OCS_PRESS"
  "getState (setState b OCS_PRESSEND) = OCS_PRESSEND"
  by (simp_all add: getState_setState OCS_defs)

lemma getState_setClicks [simp]: "getState (setClicks b c) = getState b"
  by (rule bit_word_eqI) (simp add: bit_getState bit_flags_setClicks)

lemma getClicks_setState [simp]: "getClicks (setState b s) = getClicks b"
  by (rule bit_word_eqI) (auto simp add: bit_getClicks bit_flags_setState)

lemma getClicks_setClicks [simp]: "getClicks (setClicks b c) = c AND 3"
  by (rule bit_word_eqI) (auto simp add: bit_getClicks bit_flags_setClicks mask_consts bit_simps)

lemma levels_setState [simp]:
  "getLastLevel (setState b s) = getLastLevel b"
  "getDebouncedLevel (setState b s) = getDebouncedLevel b"
  "getButtonPressed (setState b s) = getButtonPressed b"
  by (simp_all add: getLastLevel_bit getDebouncedLevel_bit getButtonPressed_bit bit_flags_setState)

lemma levels_setClicks [simp]:
  "getLastLevel (setClicks b c) = getLastLevel b"
  "getDebouncedLevel (setClicks b c) = getDebouncedLevel b"
  "getButtonPressed (setClicks b c) = getButtonPressed b"
  by (simp_all add: getLastLevel_bit getDebouncedLevel_bit getButtonPressed_bit bit_flags_setClicks)

lemma getters_setLastLevel [simp]:
  "getLastLevel (setLastLevel b v) = v"
  "getDebouncedLevel (setLastLevel b v) = getDebouncedLevel b"
  "getButtonPressed (setLastLevel b v) = getButtonPressed b"
  by (simp_all add: getLastLevel_bit getDebouncedLevel_bit getButtonPressed_bit bit_flags_setLastLevel)

lemma getters_setDebouncedLevel [simp]:
  "getLastLevel (setDebouncedLevel b v) = getLastLevel b"
  "getDebouncedLevel (setDebouncedLevel b v) = v"
  "getButtonPressed (setDebouncedLevel b v) = getButtonPressed b"
  by (simp_all add: getLastLevel_bit getDebouncedLevel_bit getButtonPressed_bit
      bit_flags_setDebouncedLevel)

lemma getState_setLevels [simp]:
  "getState (setLastLevel b v) = getState b"
  "getState (setDebouncedLevel b v) = getState b"
  "getClicks (setLastLevel b v) = getClicks b"
  "getClicks (setDebouncedLevel b v) = getClicks b"
  by (rule bit_word_eqI,
      simp add: bit_getState bit_getClicks bit_flags_setLastLevel bit_flags_setDebouncedLevel)+

lemma getters_updates [simp]:
  "getState (b\<lparr>startTime := t\<rparr>) = getState b"
  "getState (b\<lparr>state := s\<rparr>) = getState b"
  "getState (b\<lparr>lastDebounceTime := t\<rparr>) = getState b"
  "getClicks (b\<lparr>startTime := t\<rparr>) = getClicks b"
  "getClicks (b\<lparr>state := s\<rparr>) = getClicks b"
  "getClicks (b\<lparr>lastDebounceTime := t\<rparr>) = getClicks b"
  "getLastLevel (b\<lparr>startTime := t\<rparr>) = getLastLevel b"
  "getLastLevel (b\<lparr>state := s\<rparr>) = getLastLevel b"
  "getLastLevel (b\<lparr>lastDebounceTime := t\<rparr>) = getLastLevel b"
  "getDebouncedLevel (b\<lparr>startTime := t\<rparr>) = getDebouncedLevel b"
  "getDebouncedLevel (b\<lparr>state := s\<rparr>) = getDebouncedLevel b"
  "getDebouncedLevel (b\<lparr>lastDebounceTime := t\<rparr>) = getDebouncedLevel b"
  "getButtonPressed (b\<lparr>startTime := t\<rparr>) = getButtonPressed b"
  "getButtonPressed (b\<lparr>state := s\<rparr>) = getButtonPressed b"
  "getButtonPressed (b\<lparr>lastDebounceTime := t\<rparr>) = getButtonPressed b"
  by (simp_all add: getState_def getClicks_def getLastLevel_def getDebouncedLevel_def
      getButtonPressed_def)

lemma fields_setState [simp]:
  "click_ms (setState b s) = click_ms b" "press_ms (setState b s) = press_ms b"
  "startTime (setState b s) = startTime b" "lastDebounceTime (setState b s) = lastDebounceTime b"
  "clickFunc (setState b s) = clickFunc b" "doubleClickFunc (setState b s) = doubleClickFunc b"
  "longPressStartFunc (setState b s) = longPressStartFunc b"
  "pin (setState b s) = pin b" "debounce_ms (setState b s) = debounce_ms b"
  "state (setState b s) = state b"
  by (simp_all add: setState_def)

lemma fields_setClicks [simp]:
  "click_ms (setClicks b c) = click_ms b" "press_ms (setClicks b c) = press_ms b"
  "startTime (setClicks b c) = startTime b" "lastDebounceTime (setClicks b c) = lastDebounceTime b"
  "clickFunc (setClicks b c) = clickFunc b" "doubleClickFunc (setClicks b c) = doubleClickFunc b"
  "longPressStartFunc (setClicks b c) = longPressStartFunc b"
  "pin (setClicks b c) = pin b" "debounce_ms (setClicks b c) = debounce_ms b"
  "state (setClicks b c) = state b"
  by (simp_all add: setClicks_def)

lemma fields_setLastLevel [simp]:
  "click_ms (setLastLevel b v) = click_ms b" "press_ms (setLastLevel b v) = press_ms b"
  "startTime (setLastLevel b v) = startTime b"
  "lastDebounceTime (setLastLevel b v) = lastDebounceTime b"
  "clickFunc (setLastLevel b v) = clickFunc b"
  "doubleClickFunc (setLastLevel b v) = doubleClickFunc b"
  "longPressStartFunc (setLastLevel b v) = longPressStartFunc b"
  "pin (setLastLevel b v) = pin b" "debounce_ms (setLastLevel b v) = debounce_ms b"
  "state (setLastLevel b v) = state b"
  by (simp_all add: setLastLevel_def)

lemma fields_setDebouncedLevel [simp]:
  "click_ms (setDebouncedLevel b v) = click_ms b" "press_ms (setDebouncedLevel b v) = press_ms b"
  "startTime (setDebouncedLevel b v) = startTime b"
  "lastDebounceTime (setDebouncedLevel b v) = lastDebounceTime b"
  "clickFunc (setDebouncedLevel b v) = clickFunc b"
  "doubleClickFunc (setDebouncedLevel b v) = doubleClickFunc b"
  "longPressStartFunc (setDebouncedLevel b v) = longPressStartFunc b"
  "pin (setDebouncedLevel b v) = pin b" "debounce_ms (setDebouncedLevel b v) = debounce_ms b"
  "state (setDebouncedLevel b v) = state b"
  by (simp_all add: setDebouncedLevel_def)

lemma getState_less_8: "getState b < 8"
proof -
  have "getState b AND 7 = getState b"
    by (rule bit_word_eqI) (auto simp add: bit_getState mask_consts bit_simps)
  moreover have "getState b AND 7 \<le> 7"
    by (rule word_and_le1)
  ultimately have "getState b \<le> 7" by simp
  then show ?thesis by (simp add: word_le_nat_alt word_less_nat_alt)
qed

lemma getClicks_le_3: "getClicks b \<le> 3"
  unfolding getClicks_def CLICKS_MASK_def by (rule word_and_le1)

section \<open>reset\<close>

lemma reset_simps [simp]:
  "getState (reset b) = OCS_INIT" "getClicks (reset b) = 0" "startTime (reset b) = 0"
  "state (reset b) = OCS_INIT"
  "getLastLevel (reset b) = getLastLevel b" "getDebouncedLevel (reset b) = getDebouncedLevel b"
  "getButtonPressed (reset b) = getButtonPressed b"
  "lastDebounceTime (reset b) = lastDebounceTime b"
  "click_ms (reset b) = click_ms b" "press_ms (reset b) = press_ms b"
  "clickFunc (reset b) = clickFunc b" "doubleClickFunc (reset b) = doubleClickFunc b"
  "longPressStartFunc (reset b) = longPressStartFunc b"
  "pin (reset b) = pin b" "debounce_ms (reset b) = debounce_ms b"
  by (simp_all add: reset_def)

lemma OCS_distinct [simp]:
  "OCS_INIT \<noteq> OCS_DOWN" "OCS_INIT \<noteq> OCS_UP" "OCS_INIT \<noteq> OCS_COUNT" "OCS_INIT \<noteq> OCS_PRESS"
  "OCS_INIT \<noteq> OCS_PRESSEND"
  "OCS_DOWN \<noteq> OCS_INIT" "OCS_DOWN \<noteq> OCS_UP" "OCS_DOWN \<noteq> OCS_COUNT" "OCS_DOWN \<noteq> OCS_PRESS"
  "OCS_DOWN \<noteq> OCS_PRESSEND"
  "OCS_UP \<noteq> OCS_INIT" "OCS_UP \<noteq> OCS_DOWN" "OCS_UP \<noteq> OCS_COUNT" "OCS_UP \<noteq> OCS_PRESS"
  "OCS_UP \<noteq> OCS_PRESSEND"
  "OCS_COUNT \<noteq> OCS_INIT" "OCS_COUNT \<noteq> OCS_DOWN" "OCS_COUNT \<noteq> OCS_UP" "OCS_COUNT \<noteq> OCS_PRESS"
  "OCS_COUNT \<noteq> OCS_PRESSEND"
  "OCS_PRESS \<noteq> OCS_INIT" "OCS_PRESS \<noteq> OCS_DOWN" "OCS_PRESS \<noteq> OCS_UP" "OCS_PRESS \<noteq> OCS_COUNT"
  "OCS_PRESS \<noteq> OCS_PRESSEND"
  "OCS_PRESSEND \<noteq> OCS_INIT" "OCS_PRESSEND \<noteq> OCS_DOWN" "OCS_PRESSEND \<noteq> OCS_UP"
  "OCS_PRESSEND \<noteq> OCS_COUNT" "OCS_PRESSEND \<noteq> OCS_PRESS"
  by (simp_all add: OCS_defs)

section \<open>One call of the state machine\<close>

lemma fsm_run_single: "fsm_run b [(lvl, m)] = fsm b lvl m"
  by (simp split: prod.splits)

lemma fsm_run_append:
  "fsm_run b (xs @ ys) =
     (fst (fsm_run (fst (fsm_run b xs)) ys), snd (fsm_run b xs) @ snd (fsm_run (fst (fsm_run b xs)) ys))"
  by (induction xs arbitrary: b) (auto split: prod.splits)

lemma fsm_triple_seq:
  "fsm_triple P xs e1 Q \<Longrightarrow> fsm_triple Q ys e2 R \<Longrightarrow> fsm_triple P (xs @ ys) (e1 @ e2) R"
  by (simp add: fsm_triple_def fsm_run_append)

lemma fsm_triple_nil: "fsm_triple P [] [] P"
  by (simp add: fsm_triple_def)

lemma fsm_triple_cons:
  "fsm_triple P [x] e1 Q \<Longrightarrow> fsm_triple Q ys e2 R \<Longrightarrow> fsm_triple P (x # ys) (e1 @ e2) R"
  using fsm_triple_seq [of P "[x]" e1 Q ys e2 R] by simp

lemma fsm_triple_stay:
  assumes "\<And>m. m \<in> set ms \<Longrightarrow> fsm_triple P [(lvl, m)] [] P"
  shows "fsm_triple P (map (\<lambda>m. (lvl, m)) ms) [] P"
  using assms
proof (induction ms)
  case Nil
  show ?case by (simp add: fsm_triple_nil)
next
  case (Cons m ms)
  have "fsm_triple P [(lvl, m)] [] P"
    by (rule Cons.prems) simp
  moreover have "fsm_triple P (map (\<lambda>m. (lvl, m)) ms) [] P"
    by (rule Cons.IH) (simp add: Cons.prems)
  ultimately have "fsm_triple P ((lvl, m) # map (\<lambda>m. (lvl, m)) ms) ([] @ []) P"
    by (rule fsm_triple_cons)
  then show ?case by simp
qed

lemma step_INIT_released:
  "fsm_triple (in_fsm_state b0 OCS_INIT) [(False, m)] [] (in_fsm_state b0 OCS_INIT)"
  by (simp add: fsm_triple_def in_fsm_state_def same_config_def fsm_def fsm_switch_def)

lemma step_INIT_pressed:
  "fsm_triple (in_fsm_state b0 OCS_INIT) [(True, m)] [] (in_state b0 OCS_DOWN 0 (now m))"
  by (simp add: fsm_triple_def in_fsm_state_def in_state_def same_config_def fsm_def fsm_switch_def)

lemma step_DOWN_held:
  "\<not> press_ms b0 < elapsed t m \<Longrightarrow>
   fsm_triple (in_state b0 OCS_DOWN n t) [(True, m)] [] (in_state b0 OCS_DOWN n t)"
  by (simp add: fsm_triple_def in_state_def same_config_def fsm_def fsm_switch_def)

lemma step_DOWN_long:
  "press_ms b0 < elapsed t m \<Longrightarrow>
   fsm_triple (in_state b0 OCS_DOWN n t) [(True, m)]
     (if longPressStartFunc b0 \<noteq> None then [LongPressStart] else [])
     (in_fsm_state b0 OCS_PRESS)"
  by (simp add: fsm_triple_def in_state_def in_fsm_state_def same_config_def fsm_def fsm_switch_def)

lemma step_DOWN_released:
  "fsm_triple (in_state b0 OCS_DOWN n t) [(False, m)] [] (in_state b0 OCS_UP n (now m))"
  by (simp add: fsm_triple_def in_state_def same_config_def fsm_def fsm_switch_def)

lemma step_UP:
  "fsm_triple (in_state b0 OCS_UP n t) [(lvl, m)] [] (in_state b0 OCS_COUNT ((n + 1) AND 3) t)"
  by (simp add: fsm_triple_def in_state_def same_config_def fsm_def fsm_switch_def)

lemma step_COUNT_pressed:
  "fsm_triple (in_state b0 OCS_COUNT n t) [(True, m)] [] (in_state b0 OCS_DOWN n (now m))"
  by (simp add: fsm_triple_def in_state_def same_config_def fsm_def fsm_switch_def)

lemma step_COUNT_wait:
  "\<not> click_ms b0 \<le> elapsed t m \<Longrightarrow> \<not> 2 \<le> n \<Longrightarrow>
   fsm_triple (in_state b0 OCS_COUNT n t) [(False, m)] [] (in_state b0 OCS_COUNT n t)"
  by (simp add: fsm_triple_def in_state_def same_config_def fsm_def fsm_switch_def)

lemma step_COUNT_fire:
  "click_ms b0 \<le> elapsed t m \<or> 2 \<le> n \<Longrightarrow>
   fsm_triple (in_state b0 OCS_COUNT n t) [(False, m)]
     (if n = 1 \<and> clickFunc b0 \<noteq> None then [Click]
      else if 2 \<le> n \<and> doubleClickFunc b0 \<noteq> None then [DoubleClick] else [])
     (in_fsm_state b0 OCS_INIT)"
  by (auto simp add: fsm_triple_def in_state_def in_fsm_state_def same_config_def fsm_def
      fsm_switch_def Let_def)

lemma step_PRESS_held:
  "fsm_triple (in_fsm_state b0 OCS_PRESS) [(True, m)] [] (in_fsm_state b0 OCS_PRESS)"
  by (simp add: fsm_triple_def in_fsm_state_def same_config_def fsm_def fsm_switch_def)

lemma step_PRESS_released:
  "fsm_triple (in_fsm_state b0 OCS_PRESS) [(False, m)] [] (in_fsm_state b0 OCS_PRESSEND)"
  by (simp add: fsm_triple_def in_fsm_state_def same_config_def fsm_def fsm_switch_def)

lemma step_PRESSEND:
  "fsm_triple (in_fsm_state b0 OCS_PRESSEND) [(lvl, m)] [] (in_fsm_state b0 OCS_INIT)"
  by (simp add: fsm_triple_def in_fsm_state_def same_config_def fsm_def fsm_switch_def)

section \<open>Phases of a trace\<close>

lemma run_INIT_released:
  "fsm_triple (in_fsm_state b0 OCS_INIT) (released ms) [] (in_fsm_state b0 OCS_INIT)"
  unfolding released_def by (rule fsm_triple_stay) (rule step_INIT_released)

lemma run_DOWN_held:
  "\<forall>m\<in>set ms. \<not> press_ms b0 < elapsed t m \<Longrightarrow>
   fsm_triple (in_state b0 OCS_DOWN n t) (held ms) [] (in_state b0 OCS_DOWN n t)"
  unfolding held_def by (rule fsm_triple_stay) (simp add: step_DOWN_held)

lemma run_COUNT_wait:
  "\<forall>m\<in>set ms. \<not> click_ms b0 \<le> elapsed t m \<Longrightarrow> \<not> 2 \<le> n \<Longrightarrow>
   fsm_triple (in_state b0 OCS_COUNT n t) (released ms) [] (in_state b0 OCS_COUNT n t)"
  unfolding released_def by (rule fsm_triple_stay) (simp add: step_COUNT_wait)

lemma run_PRESS_held:
  "fsm_triple (in_fsm_state b0 OCS_PRESS) (held ms) [] (in_fsm_state b0 OCS_PRESS)"
  unfolding held_def by (rule fsm_triple_stay) (rule step_PRESS_held)

text \<open>A press-release cycle shorter than the press threshold, from Idle or from counting.\<close>

lemma run_cycle_from_INIT:
  assumes "\<forall>m\<in>set hs. \<not> press_ms b0 < elapsed (now p) m"
  shows "fsm_triple (in_fsm_state b0 OCS_INIT) (click_cycle p hs r lvl c) []
           (in_state b0 OCS_COUNT 1 (now r))"
proof -
  have "fsm_triple (in_state b0 OCS_UP 0 (now r)) [(lvl, c)] []
          (in_state b0 OCS_COUNT ((0 + 1) AND 3) (now r))"
    by (rule step_UP)
  then have up: "fsm_triple (in_state b0 OCS_UP 0 (now r)) [(lvl, c)] []
          (in_state b0 OCS_COUNT 1 (now r))"
    by simp
  have "fsm_triple (in_state b0 OCS_DOWN 0 (now p)) ((False, r) # [(lvl, c)]) ([] @ [])
          (in_state b0 OCS_COUNT 1 (now r))"
    by (rule fsm_triple_cons [OF step_DOWN_released up])
  then have "fsm_triple (in_state b0 OCS_DOWN 0 (now p)) (held hs @ [(False, r), (lvl, c)]) ([] @ [])
          (in_state b0 OCS_COUNT 1 (now r))"
    by (intro fsm_triple_seq [OF run_DOWN_held [OF assms]]) simp
  then have "fsm_triple (in_fsm_state b0 OCS_INIT)
           ((True, p) # held hs @ [(False, r), (lvl, c)]) ([] @ [] @ [])
           (in_state b0 OCS_COUNT 1 (now r))"
    by (rule fsm_triple_cons [OF step_INIT_pressed])
  then show ?thesis by (simp add: click_cycle_def)
qed

lemma run_cycle_from_COUNT:
  assumes "\<forall>m\<in>set hs. \<not> press_ms b0 < elapsed (now p) m"
  shows "fsm_triple (in_state b0 OCS_COUNT n t) (click_cycle p hs r lvl c) []
           (in_state b0 OCS_COUNT ((n + 1) AND 3) (now r))"
proof -
  have "fsm_triple (in_state b0 OCS_DOWN n (now p)) ((False, r) # [(lvl, c)]) ([] @ [])
          (in_state b0 OCS_COUNT ((n + 1) AND 3) (now r))"
    by (rule fsm_triple_cons [OF step_DOWN_released step_UP])
  then have "fsm_triple (in_state b0 OCS_DOWN n (now p)) (held hs @ [(False, r), (lvl, c)]) ([] @ [])
          (in_state b0 OCS_COUNT ((n + 1) AND 3) (now r))"
    by (intro fsm_triple_seq [OF run_DOWN_held [OF assms]]) simp
  then have "fsm_triple (in_state b0 OCS_COUNT n t)
           ((True, p) # held hs @ [(False, r), (lvl, c)]) ([] @ [] @ [])
           (in_state b0 OCS_COUNT ((n + 1) AND 3) (now r))"
    by (rule fsm_triple_cons [OF step_COUNT_pressed])
  then show ?thesis by (simp add: click_cycle_def)
qed

section \<open>Where the callbacks and the state of a call come from\<close>

lemma snd_fsm: "snd (fsm b activeLevel millis) = snd (fsm_switch b activeLevel millis)"
  by (simp add: fsm_def case_prod_beta)

lemma fst_fsm:
  "fst (fsm b activeLevel millis) =
     (fst (fsm_switch b activeLevel millis))\<lparr>state := getState (fst (fsm_switch b activeLevel millis))\<rparr>"
  by (simp add: fsm_def case_prod_beta)

lemma fsm_switch_at_most_one: "length (snd (fsm_switch b activeLevel millis)) \<le> 1"
  by (simp add: fsm_switch_def Let_def)

lemma reset_state_fixed: "(reset b)\<lparr>state := getState (reset b)\<rparr> = reset b"
  by (simp add: reset_def)

lemma debounce_frame [simp]:
  "getState (fst (debounce b level m)) = getState b"
  "getClicks (fst (debounce b level m)) = getClicks b"
  "startTime (fst (debounce b level m)) = startTime b"
  "same_config (fst (debounce b level m)) b"
  by (simp_all add: debounce_def Let_def same_config_def)

section \<open>Gestures\<close>

lemma fsm_tripleD:
  "fsm_triple P tr evs Q \<Longrightarrow> P b \<Longrightarrow> snd (fsm_run b tr) = evs \<and> Q (fst (fsm_run b tr))"
  by (simp add: fsm_triple_def)

lemma in_fsm_state_self: "in_fsm_state b (getState b) b"
  by (simp add: in_fsm_state_def same_config_def)

lemma not_2_le_1: "\<not> (2 :: 8 word) \<le> 1"
  by (simp add: word_le_nat_alt)

text \<open>A group of one click that times out.\<close>

lemma run_single_click:
  assumes hs: "\<forall>m\<in>set hs. \<not> press_ms b0 < elapsed (now p) m"
    and ws: "\<forall>m\<in>set ws. \<not> click_ms b0 \<le> elapsed (now r) m"
    and t: "click_ms b0 \<le> elapsed (now r) t"
  shows "fsm_triple (in_fsm_state b0 OCS_INIT)
           (released pre @ click_cycle p hs r lvl c @ released ws @ (False, t) # released post)
           (if clickFunc b0 \<noteq> None then [Click] else [])
           (in_fsm_state b0 OCS_INIT)"
proof -
  have fire: "fsm_triple (in_state b0 OCS_COUNT 1 (now r)) [(False, t)]
      (if clickFunc b0 \<noteq> None then [Click] else []) (in_fsm_state b0 OCS_INIT)"
    using step_COUNT_fire [of b0 "now r" t 1] t by (auto simp add: not_2_le_1)
  have "fsm_triple (in_state b0 OCS_COUNT 1 (now r)) ((False, t) # released post)
      ((if clickFunc b0 \<noteq> None then [Click] else []) @ []) (in_fsm_state b0 OCS_INIT)"
    by (rule fsm_triple_cons [OF fire run_INIT_released])
  then have "fsm_triple (in_state b0 OCS_COUNT 1 (now r)) (released ws @ (False, t) # released post)
      ([] @ (if clickFunc b0 \<noteq> None then [Click] else []) @ []) (in_fsm_state b0 OCS_INIT)"
    by (rule fsm_triple_seq [OF run_COUNT_wait [OF ws not_2_le_1]])
  then have "fsm_triple (in_fsm_state b0 OCS_INIT)
      (click_cycle p hs r lvl c @ released ws @ (False, t) # released post)
      ([] @ [] @ (if clickFunc b0 \<noteq> None then [Click] else []) @ []) (in_fsm_state b0 OCS_INIT)"
    by (rule fsm_triple_seq [OF run_cycle_from_INIT [OF hs]])
  then have "fsm_triple (in_fsm_state b0 OCS_INIT)
      (released pre @ click_cycle p hs r lvl c @ released ws @ (False, t) # released post)
      ([] @ [] @ [] @ (if clickFunc b0 \<noteq> None then [Click] else []) @ []) (in_fsm_state b0 OCS_INIT)"
    by (rule fsm_triple_seq [OF run_INIT_released])
  then show ?thesis by simp
qed

text \<open>Two clicks of one group; the count is then 2.\<close>

lemma run_two_clicks:
  assumes h1: "\<forall>m\<in>set h1. \<not> press_ms b0 < elapsed (now p1) m"
    and w1: "\<forall>m\<in>set w1. \<not> click_ms b0 \<le> elapsed (now r1) m"
    and h2: "\<forall>m\<in>set h2. \<not> press_ms b0 < elapsed (now p2) m"
  shows "fsm_triple (in_fsm_state b0 OCS_INIT)
           (released pre @ click_cycle p1 h1 r1 l1 c1 @ released w1 @ click_cycle p2 h2 r2 l2 c2)
           [] (in_state b0 OCS_COUNT 2 (now r2))"
proof -
  have "fsm_triple (in_state b0 OCS_COUNT 1 (now r1)) (click_cycle p2 h2 r2 l2 c2) []
      (in_state b0 OCS_COUNT ((1 + 1) AND 3) (now r2))"
    by (rule run_cycle_from_COUNT [OF h2])
  then have c2: "fsm_triple (in_state b0 OCS_COUNT 1 (now r1)) (click_cycle p2 h2 r2 l2 c2) []
      (in_state b0 OCS_COUNT 2 (now r2))"
    by simp
  have "fsm_triple (in_state b0 OCS_COUNT 1 (now r1)) (released w1 @ click_cycle p2 h2 r2 l2 c2)
      ([] @ []) (in_state b0 OCS_COUNT 2 (now r2))"
    by (rule fsm_triple_seq [OF run_COUNT_wait [OF w1 not_2_le_1] c2])
  then have "fsm_triple (in_fsm_state b0 OCS_INIT)
      (click_cycle p1 h1 r1 l1 c1 @ released w1 @ click_cycle p2 h2 r2 l2 c2)
      ([] @ [] @ []) (in_state b0 OCS_COUNT 2 (now r2))"
    by (rule fsm_triple_seq [OF run_cycle_from_INIT [OF h1]])
  then have "fsm_triple (in_fsm_state b0 OCS_INIT)
      (released pre @ click_cycle p1 h1 r1 l1 c1 @ released w1 @ click_cycle p2 h2 r2 l2 c2)
      ([] @ [] @ [] @ []) (in_state b0 OCS_COUNT 2 (now r2))"
    by (rule fsm_triple_seq [OF run_INIT_released])
  then show ?thesis by simp
qed

text \<open>With a count of 2 or 3, the first call with an inactive level closes the group.\<close>

lemma step_COUNT_double:
  assumes "2 \<le> n"
  shows "fsm_triple (in_state b0 OCS_COUNT n t) [(False, m)]
           (if doubleClickFunc b0 \<noteq> None then [DoubleClick] else []) (in_fsm_state b0 OCS_INIT)"
proof -
  have "n \<noteq> 1" using assms by (auto simp add: word_le_nat_alt)
  then show ?thesis
    using step_COUNT_fire [of b0 t m n] assms by auto
qed

lemma run_long_press_end:
  "fsm_triple (in_fsm_state b0 OCS_PRESS) (held ks @ (False, r) # (lvl, e) # released post) []
     (in_fsm_state b0 OCS_INIT)"
proof -
  have "fsm_triple (in_fsm_state b0 OCS_PRESSEND) ((lvl, e) # released post) ([] @ [])
          (in_fsm_state b0 OCS_INIT)"
    by (rule fsm_triple_cons [OF step_PRESSEND run_INIT_released])
  then have "fsm_triple (in_fsm_state b0 OCS_PRESS) ((False, r) # (lvl, e) # released post)
          ([] @ [] @ []) (in_fsm_state b0 OCS_INIT)"
    by (rule fsm_triple_cons [OF step_PRESS_released])
  then have "fsm_triple (in_fsm_state b0 OCS_PRESS)
          (held ks @ (False, r) # (lvl, e) # released post) ([] @ [] @ [] @ [])
          (in_fsm_state b0 OCS_INIT)"
    by (rule fsm_triple_seq [OF run_PRESS_held])
  then show ?thesis by simp
qed

lemma run_four_clicks:
  assumes h1: "\<forall>m\<in>set h1. \<not> press_ms b0 < elapsed (now p1) m"
    and w1: "\<forall>m\<in>set w1. \<not> click_ms b0 \<le> elapsed (now r1) m"
    and h2: "\<forall>m\<in>set h2. \<not> press_ms b0 < elapsed (now p2) m"
    and h3: "\<forall>m\<in>set h3. \<not> press_ms b0 < elapsed (now p3) m"
    and h4: "\<forall>m\<in>set h4. \<not> press_ms b0 < elapsed (now p4) m"
  shows "fsm_triple (in_fsm_state b0 OCS_INIT)
           ((released pre @ click_cycle p1 h1 r1 l1 c1 @ released w1 @ click_cycle p2 h2 r2 l2 c2) @
              click_cycle p3 h3 r3 l3 c3 @ click_cycle p4 h4 r4 l4 c4)
           [] (in_state b0 OCS_COUNT 0 (now r4))"
proof -
  have "fsm_triple (in_state b0 OCS_COUNT 3 (now r3)) (click_cycle p4 h4 r4 l4 c4) []
      (in_state b0 OCS_COUNT ((3 + 1) AND 3) (now r4))"
    by (rule run_cycle_from_COUNT [OF h4])
  then have c4: "fsm_triple (in_state b0 OCS_COUNT 3 (now r3)) (click_cycle p4 h4 r4 l4 c4) []
      (in_state b0 OCS_COUNT 0 (now r4))"
    by simp
  have "fsm_triple (in_state b0 OCS_COUNT 2 (now r2)) (click_cycle p3 h3 r3 l3 c3) []
      (in_state b0 OCS_COUNT ((2 + 1) AND 3) (now r3))"
    by (rule run_cycle_from_COUNT [OF h3])
  then have c3: "fsm_triple (in_state b0 OCS_COUNT 2 (now r2)) (click_cycle p3 h3 r3 l3 c3) []
      (in_state b0 OCS_COUNT 3 (now r3))"
    by simp
  have "fsm_triple (in_state b0 OCS_COUNT 2 (now r2))
      (click_cycle p3 h3 r3 l3 c3 @ click_cycle p4 h4 r4 l4 c4) ([] @ [])
      (in_state b0 OCS_COUNT 0 (now r4))"
    by (rule fsm_triple_seq [OF c3 c4])
  then have "fsm_triple (in_fsm_state b0 OCS_INIT)
      ((released pre @ click_cycle p1 h1 r1 l1 c1 @ released w1 @ click_cycle p2 h2 r2 l2 c2) @
         click_cycle p3 h3 r3 l3 c3 @ click_cycle p4 h4 r4 l4 c4) ([] @ [] @ [])
      (in_state b0 OCS_COUNT 0 (now r4))"
    by (rule fsm_triple_seq [OF run_two_clicks [OF h1 w1 h2]])
  then show ?thesis by simp
qed

lemma run_COUNT_zero_timeout:
  assumes w: "\<forall>m\<in>set ws. \<not> click_ms b0 \<le> elapsed t m"
    and x: "click_ms b0 \<le> elapsed t x"
  shows "fsm_triple (in_state b0 OCS_COUNT 0 t) (released ws @ [(False, x)]) []
           (in_fsm_state b0 OCS_INIT)"
proof -
  have fire: "fsm_triple (in_state b0 OCS_COUNT 0 t) [(False, x)] [] (in_fsm_state b0 OCS_INIT)"
    using step_COUNT_fire [of b0 t x 0] x by simp
  have "fsm_triple (in_state b0 OCS_COUNT 0 t) (released ws @ [(False, x)]) ([] @ [])
      (in_fsm_state b0 OCS_INIT)"
    by (rule fsm_triple_seq [OF run_COUNT_wait [OF w] fire]) simp
  then show ?thesis by simp
qed

lemma fsm_UP_counts:
  assumes "getState b = OCS_UP"
  shows "getClicks (fst (fsm b lvl m)) = (getClicks b + 1) AND 3"
    and "getState (fst (fsm b lvl m)) = OCS_COUNT"
    and "snd (fsm b lvl m) = []"
  using assms by (simp_all add: fsm_def fsm_switch_def)

lemma unat_incr_and_3: "unat ((n + 1) AND (3 :: 8 word)) = (unat n + 1) mod 4"
proof -
  have "unat ((n + 1) AND (3 :: 8 word)) = unat (take_bit 2 (n + 1))"
    by (simp only: mask_consts take_bit_eq_mask)
  also have "\<dots> = take_bit 2 (unat (n + 1))"
    by (rule unsigned_take_bit_eq)
  also have "\<dots> = unat (n + 1) mod 4"
    by (simp add: take_bit_eq_mod)
  also have "\<dots> = ((unat n + 1) mod 256) mod 4"
    by (simp add: unat_word_ariths)
  also have "\<dots> = (unat n + 1) mod 4"
    by (simp add: mod_mod_cancel)
  finally show ?thesis .
qed

lemma held_append: "held (xs @ ys) = held xs @ held ys"
  by (simp add: held_def)

lemma held_Cons: "held (x # xs) = (True, x) # held xs"
  by (simp add: held_def)

lemma released_append: "released (xs @ ys) = released xs @ released ys"
  by (simp add: released_def)

lemma released_Cons: "released (x # xs) = (False, x) # released xs"
  by (simp add: released_def)

text \<open>
  While the button is down, the first call at which the waiting time exceeds
  \<open>press_ms\<close> invokes the long-press callback; the calls before and after invoke
  nothing.
\<close>

lemma run_DOWN_first_long:
  assumes as: "\<forall>m\<in>set as. \<not> press_ms b0 < elapsed t m"
    and y: "press_ms b0 < elapsed t y"
  shows "fsm_triple (in_state b0 OCS_DOWN n t) (held as) [] (in_state b0 OCS_DOWN n t)"
    and "fsm_triple (in_state b0 OCS_DOWN n t) (held as @ [(True, y)])
           (if longPressStartFunc b0 \<noteq> None then [LongPressStart] else [])
           (in_fsm_state b0 OCS_PRESS)"
    and "fsm_triple (in_state b0 OCS_DOWN n t)
           (held (as @ y # bs) @ (False, r) # (lvl, e) # released post)
           (if longPressStartFunc b0 \<noteq> None then [LongPressStart] else [])
           (in_fsm_state b0 OCS_INIT)"
proof -
  show 1: "fsm_triple (in_state b0 OCS_DOWN n t) (held as) [] (in_state b0 OCS_DOWN n t)"
    by (rule run_DOWN_held [OF as])
  show 2: "fsm_triple (in_state b0 OCS_DOWN n t) (held as @ [(True, y)])
           (if longPressStartFunc b0 \<noteq> None then [LongPressStart] else [])
           (in_fsm_state b0 OCS_PRESS)"
    using fsm_triple_seq [OF 1 step_DOWN_long [OF y]] by simp
  have "fsm_triple (in_state b0 OCS_DOWN n t)
      ((held as @ [(True, y)]) @ held bs @ (False, r) # (lvl, e) # released post)
      ((if longPressStartFunc b0 \<noteq> None then [LongPressStart] else []) @ [])
      (in_fsm_state b0 OCS_INIT)"
    by (rule fsm_triple_seq [OF 2 run_long_press_end])
  then show "fsm_triple (in_state b0 OCS_DOWN n t)
           (held (as @ y # bs) @ (False, r) # (lvl, e) # released post)
           (if longPressStartFunc b0 \<noteq> None then [LongPressStart] else [])
           (in_fsm_state b0 OCS_INIT)"
    by (simp add: held_append held_Cons)
qed

text \<open>The call that sees the press, from Idle or while a click is pending.\<close>

lemma step_pressed:
  assumes "getState b = OCS_INIT \<or> getState b = OCS_COUNT"
  shows "\<exists>n. in_state b OCS_DOWN n (now m) (fst (fsm b True m)) \<and> snd (fsm b True m) = []"
proof -
  from assms show ?thesis
  proof
    assume "getState b = OCS_INIT"
    then have "in_fsm_state b OCS_INIT b"
      using in_fsm_state_self [of b] by simp
    from fsm_tripleD [OF step_INIT_pressed this, of m]
    show ?thesis by (auto simp add: fsm_run_single)
  next
    assume "getState b = OCS_COUNT"
    then have "in_state b OCS_COUNT (getClicks b) (startTime b) b"
      by (simp add: in_state_def same_config_def)
    from fsm_tripleD [OF step_COUNT_pressed this, of m]
    show ?thesis by (auto simp add: fsm_run_single)
  qed
qed

lemma fsm_run_Cons:
  "snd (fsm_run b ((lvl, m) # tr)) = snd (fsm b lvl m) @ snd (fsm_run (fst (fsm b lvl m)) tr)"
  "fst (fsm_run b ((lvl, m) # tr)) = fst (fsm_run (fst (fsm b lvl m)) tr)"
  by (simp_all add: case_prod_beta)

text \<open>
  While one click is pending, the first call with an inactive level at which the
  waiting time has reached \<open>click_ms\<close> invokes the click callback; the calls before
  and after invoke nothing.
\<close>

lemma run_COUNT_first_timeout:
  assumes as: "\<forall>m\<in>set as. \<not> click_ms b0 \<le> elapsed t m"
    and y: "click_ms b0 \<le> elapsed t y"
  shows "fsm_triple (in_state b0 OCS_COUNT 1 t) (released as) [] (in_state b0 OCS_COUNT 1 t)"
    and "fsm_triple (in_state b0 OCS_COUNT 1 t) (released as @ [(False, y)])
           (if clickFunc b0 \<noteq> None then [Click] else []) (in_fsm_state b0 OCS_INIT)"
    and "fsm_triple (in_state b0 OCS_COUNT 1 t) (released (as @ y # bs))
           (if clickFunc b0 \<noteq> None then [Click] else []) (in_fsm_state b0 OCS_INIT)"
proof -
  show 1: "fsm_triple (in_state b0 OCS_COUNT 1 t) (released as) [] (in_state b0 OCS_COUNT 1 t)"
    by (rule run_COUNT_wait [OF as not_2_le_1])
  have fire: "fsm_triple (in_state b0 OCS_COUNT 1 t) [(False, y)]
      (if clickFunc b0 \<noteq> None then [Click] else []) (in_fsm_state b0 OCS_INIT)"
    using step_COUNT_fire [of b0 t y 1] y by (auto simp add: not_2_le_1)
  show 2: "fsm_triple (in_state b0 OCS_COUNT 1 t) (released as @ [(False, y)])
           (if clickFunc b0 \<noteq> None then [Click] else []) (in_fsm_state b0 OCS_INIT)"
    using fsm_triple_seq [OF 1 fire] by simp
  have "fsm_triple (in_state b0 OCS_COUNT 1 t) ((released as @ [(False, y)]) @ released bs)
      ((if clickFunc b0 \<noteq> None then [Click] else []) @ []) (in_fsm_state b0 OCS_INIT)"
    by (rule fsm_triple_seq [OF 2 run_INIT_released])
  then show "fsm_triple (in_state b0 OCS_COUNT 1 t) (released (as @ y # bs))
           (if clickFunc b0 \<noteq> None then [Click] else []) (in_fsm_state b0 OCS_INIT)"
    by (simp add: released_append released_Cons)
qed

lemma run_to_pending_click:
  assumes "\<forall>m\<in>set hs. \<not> press_ms b0 < elapsed (now p) m"
  shows "fsm_triple (in_fsm_state b0 OCS_INIT) (released pre @ click_cycle p hs r lvl c) []
           (in_state b0 OCS_COUNT 1 (now r))"
  using fsm_triple_seq [OF run_INIT_released run_cycle_from_INIT [OF assms]] by simp

section \<open>A fresh object and its callbacks\<close>

lemma getState_new: "getState (OneButtonTiny_new p activeLow pullupActive) = OCS_INIT"
  by (simp add: getState_def OneButtonTiny_new_def consts_defs OCS_defs)

lemma attach_simps [simp]:
  "getState (attachClick b f) = getState b"
  "getState (attachDoubleClick b f) = getState b"
  "getState (attachLongPressStart b f) = getState b"
  "clickFunc (attachClick b f) = f"
  "clickFunc (attachDoubleClick b f) = clickFunc b"
  "clickFunc (attachLongPressStart b f) = clickFunc b"
  "doubleClickFunc (attachClick b f) = doubleClickFunc b"
  "doubleClickFunc (attachDoubleClick b f) = f"
  "doubleClickFunc (attachLongPressStart b f) = doubleClickFunc b"
  "longPressStartFunc (attachClick b f) = longPressStartFunc b"
  "longPressStartFunc (attachDoubleClick b f) = longPressStartFunc b"
  "longPressStartFunc (attachLongPressStart b f) = f"
  "click_ms (attachClick b f) = click_ms b"
  "click_ms (attachDoubleClick b f) = click_ms b"
  "click_ms (attachLongPressStart b f) = click_ms b"
  "press_ms (attachClick b f) = press_ms b"
  "press_ms (attachDoubleClick b f) = press_ms b"
  "press_ms (attachLongPressStart b f) = press_ms b"
  by (simp_all add: attachClick_def attachDoubleClick_def attachLongPressStart_def getState_def)

lemma new_simps [simp]:
  "click_ms (OneButtonTiny_new p activeLow pullupActive) = 400"
  "press_ms (OneButtonTiny_new p activeLow pullupActive) = 800"
  "debounce_ms (OneButtonTiny_new p activeLow pullupActive) = 50"
  by (simp_all add: OneButtonTiny_new_def)

lemma setClickMs_simps [simp]:
  "getState (setClickMs b ms) = getState b" "click_ms (setClickMs b ms) = ms"
  "press_ms (setClickMs b ms) = press_ms b" "clickFunc (setClickMs b ms) = clickFunc b"
  "doubleClickFunc (setClickMs b ms) = doubleClickFunc b"
  "longPressStartFunc (setClickMs b ms) = longPressStartFunc b"
  by (simp_all add: setClickMs_def getState_def)

section \<open>The clock in 4 ms ticks\<close>

lemma now_clock: "now (clock t) = of_nat (t div 4)"
proof -
  have "now (clock t) = (of_nat (drop_bit 2 t) :: 16 word)"
    by (rule bit_word_eqI) (auto simp add: now_def clock_def bit_simps)
  then show ?thesis by (simp add: drop_bit_eq_div)
qed

lemma unat_now_diff:
  assumes "t1 \<le> t2"
  shows "unat (now (clock t2) - now (clock t1)) = (t2 div 4 - t1 div 4) mod 65536"
proof -
  have "t1 div 4 \<le> t2 div 4" using assms by (rule div_le_mono)
  then have "now (clock t2) - now (clock t1) = of_nat (t2 div 4 - t1 div 4)"
    by (simp add: now_clock of_nat_diff)
  then show ?thesis by (simp add: unat_of_nat)
qed

lemma unat_push_bit_2: "unat (push_bit 2 (w :: 16 word)) = (4 * unat w) mod 65536"
proof -
  have "unat (push_bit 2 w) = take_bit 16 (push_bit 2 (unat w))"
    by (simp only: unsigned_push_bit_eq) simp
  then show ?thesis by (simp add: push_bit_eq_mult take_bit_eq_mod mult.commute)
qed

lemma unat_elapsed:
  assumes "t1 \<le> t2"
  shows "unat (elapsed (now (clock t1)) (clock t2)) = (4 * (t2 div 4 - t1 div 4)) mod 65536"
proof -
  have "unat (elapsed (now (clock t1)) (clock t2)) =
        (4 * unat (now (clock t2) - now (clock t1))) mod 65536"
    unfolding elapsed_def by (rule unat_push_bit_2)
  also have "\<dots> = (4 * ((t2 div 4 - t1 div 4) mod 65536)) mod 65536"
    by (simp only: unat_now_diff [OF assms])
  also have "\<dots> = (4 * (t2 div 4 - t1 div 4)) mod 65536"
    by (rule mod_mult_right_eq)
  finally show ?thesis .
qed

lemma ticks_bounds:
  assumes "t1 \<le> (t2 :: nat)"
  shows "t2 - t1 \<le> 4 * (t2 div 4 - t1 div 4) + 3" and "4 * (t2 div 4 - t1 div 4) \<le> t2 - t1 + 3"
proof -
  have "t1 = 4 * (t1 div 4) + t1 mod 4" "t2 = 4 * (t2 div 4) + t2 mod 4" by simp_all
  moreover have "t1 mod 4 < 4" "t2 mod 4 < 4" by simp_all
  moreover have "t1 div 4 \<le> t2 div 4" using assms by (rule div_le_mono)
  ultimately show "t2 - t1 \<le> 4 * (t2 div 4 - t1 div 4) + 3"
    and "4 * (t2 div 4 - t1 div 4) \<le> t2 - t1 + 3"
    using assms by linarith+
qed


text \<open>
  True durations that decide a comparison of the waiting time with a threshold: 3 ms of
  margin on either side make up for the resolution.
\<close>

lemma elapsed_le_threshold:
  assumes "t1 \<le> t2" and "t2 - t1 + 3 \<le> unat thr"
  shows "elapsed (now (clock t1)) (clock t2) \<le> thr"
proof -
  have "unat (elapsed (now (clock t1)) (clock t2)) \<le> 4 * (t2 div 4 - t1 div 4)"
    by (simp add: unat_elapsed [OF assms(1)])
  also have "\<dots> \<le> t2 - t1 + 3"
    by (rule ticks_bounds(2) [OF assms(1)])
  finally show ?thesis
    using assms(2) by (simp add: word_le_nat_alt)
qed

lemma elapsed_gt_threshold:
  assumes "t1 \<le> t2" and "t2 - t1 \<le> 65532" and "unat thr + 4 \<le> t2 - t1"
  shows "thr < elapsed (now (clock t1)) (clock t2)"
proof -
  have "4 * (t2 div 4 - t1 div 4) < 65536"
    using ticks_bounds(2) [OF assms(1)] assms(2) by linarith
  then have "unat (elapsed (now (clock t1)) (clock t2)) = 4 * (t2 div 4 - t1 div 4)"
    by (simp add: unat_elapsed [OF assms(1)])
  moreover have "t2 - t1 \<le> 4 * (t2 div 4 - t1 div 4) + 3"
    by (rule ticks_bounds(1) [OF assms(1)])
  ultimately show ?thesis
    using assms(3) by (simp add: word_less_nat_alt)
qed

lemma unat_elapsed_le:
  assumes "t1 \<le> t2"
  shows "unat (elapsed (now (clock t1)) (clock t2)) \<le> t2 - t1 + 3"
proof -
  have "unat (elapsed (now (clock t1)) (clock t2)) \<le> 4 * (t2 div 4 - t1 div 4)"
    by (simp add: unat_elapsed [OF assms])
  also have "\<dots> \<le> t2 - t1 + 3"
    by (rule ticks_bounds(2) [OF assms])
  finally show ?thesis .
qed

lemma elapsed_ge_threshold:
  assumes "t1 \<le> t2" and "t2 - t1 \<le> 65532" and "unat thr + 3 \<le> t2 - t1"
  shows "thr \<le> elapsed (now (clock t1)) (clock t2)"
proof -
  have "4 * (t2 div 4 - t1 div 4) < 65536"
    using ticks_bounds(2) [OF assms(1)] assms(2) by linarith
  then have "unat (elapsed (now (clock t1)) (clock t2)) = 4 * (t2 div 4 - t1 div 4)"
    by (simp add: unat_elapsed [OF assms(1)])
  moreover have "t2 - t1 \<le> 4 * (t2 div 4 - t1 div 4) + 3"
    by (rule ticks_bounds(1) [OF assms(1)])
  ultimately show ?thesis
    using assms(3) by (simp add: word_le_nat_alt)
qed

section \<open>The debounce filter over a sequence of calls\<close>

lemma fsm_switch_frame:
  "getLastLevel (fst (fsm_switch b lvl m)) = getLastLevel b"
  "getDebouncedLevel (fst (fsm_switch b lvl m)) = getDebouncedLevel b"
  "lastDebounceTime (fst (fsm_switch b lvl m)) = lastDebounceTime b"
  "debounce_ms (fst (fsm_switch b lvl m)) = debounce_ms b"
  by (simp_all add: fsm_switch_def Let_def)

lemma fsm_frame:
  "getLastLevel (fst (fsm b lvl m)) = getLastLevel b"
  "getDebouncedLevel (fst (fsm b lvl m)) = getDebouncedLevel b"
  "lastDebounceTime (fst (fsm b lvl m)) = lastDebounceTime b"
  "debounce_ms (fst (fsm b lvl m)) = debounce_ms b"
  by (simp_all add: fst_fsm fsm_switch_frame)

lemma fst_tick: "fst (tick b lvl m1 m2) = fst (fsm (fst (debounce b lvl m1)) (snd (debounce b lvl m1)) m2)"
  by (simp add: tick_def case_prod_beta)

lemma tick_frame:
  "getLastLevel (fst (tick b lvl m1 m2)) = getLastLevel (fst (debounce b lvl m1))"
  "getDebouncedLevel (fst (tick b lvl m1 m2)) = getDebouncedLevel (fst (debounce b lvl m1))"
  "lastDebounceTime (fst (tick b lvl m1 m2)) = lastDebounceTime (fst (debounce b lvl m1))"
  "debounce_ms (fst (tick b lvl m1 m2)) = debounce_ms (fst (debounce b lvl m1))"
  by (simp_all add: fst_tick fsm_frame)

text \<open>The three cases of \<open>_debounce\<close>.\<close>

lemma debounce_changed:
  assumes "getLastLevel b \<noteq> level"
  shows "getLastLevel (fst (debounce b level m)) = level"
    and "lastDebounceTime (fst (debounce b level m)) = now m"
    and "getDebouncedLevel (fst (debounce b level m)) = getDebouncedLevel b"
    and "debounce_ms (fst (debounce b level m)) = debounce_ms b"
  using assms by (simp_all add: debounce_def Let_def)

lemma debounce_settled:
  assumes "getLastLevel b = level"
    and "ucast (drop_bit 2 (debounce_ms b)) \<le> now m - lastDebounceTime b"
  shows "getLastLevel (fst (debounce b level m)) = level"
    and "lastDebounceTime (fst (debounce b level m)) = lastDebounceTime b"
    and "getDebouncedLevel (fst (debounce b level m)) = level"
    and "debounce_ms (fst (debounce b level m)) = debounce_ms b"
  using assms by (simp_all add: debounce_def Let_def)

lemma debounce_waiting:
  assumes "getLastLevel b = level"
    and "\<not> ucast (drop_bit 2 (debounce_ms b)) \<le> now m - lastDebounceTime b"
  shows "fst (debounce b level m) = b"
  using assms by (simp add: debounce_def Let_def)

lemma tick_run_snoc:
  "fst (tick_run b (tr @ [(lvl, t)])) = fst (tick (fst (tick_run b tr)) lvl (clock t) (clock t))"
  by (induction tr arbitrary: b) (auto simp add: case_prod_beta)

lemma tick_run_debounce_ms: "debounce_ms (fst (tick_run b tr)) = debounce_ms b"
proof (induction tr rule: rev_induct)
  case Nil
  show ?case by simp
next
  case (snoc x tr)
  obtain lvl t where x: "x = (lvl, t)" by (cases x)
  have "debounce_ms (fst (debounce (fst (tick_run b tr)) lvl (clock t))) = debounce_ms b"
    using snoc.IH by (simp add: debounce_def Let_def)
  then show ?case by (simp add: x tick_run_snoc tick_frame)
qed

text \<open>
  When the last raw level differs from the debounced one, \<open>_lastDebounceTime\<close> is the
  tick of an earlier call of the trace, and every call since had that raw level.
\<close>

lemma tick_run_pending:
  assumes "getLastLevel b = getDebouncedLevel b"
    and "getLastLevel (fst (tick_run b tr)) \<noteq> getDebouncedLevel (fst (tick_run b tr))"
  shows "\<exists>xs tj ys. tr = xs @ (getLastLevel (fst (tick_run b tr)), tj) # ys \<and>
           (\<forall>x\<in>set ys. fst x = getLastLevel (fst (tick_run b tr))) \<and>
           lastDebounceTime (fst (tick_run b tr)) = now (clock tj)"
  using assms(2)
proof (induction tr rule: rev_induct)
  case Nil
  with assms(1) show ?case by simp
next
  case (snoc x tr)
  obtain lvl t where x: "x = (lvl, t)" by (cases x)
  let ?s = "fst (tick_run b tr)"
  let ?s' = "fst (tick_run b (tr @ [(lvl, t)]))"
  let ?d = "fst (debounce ?s lvl (clock t))"
  have s': "getLastLevel ?s' = getLastLevel ?d" "getDebouncedLevel ?s' = getDebouncedLevel ?d"
    "lastDebounceTime ?s' = lastDebounceTime ?d"
    by (simp_all add: tick_run_snoc tick_frame)
  have prems: "getLastLevel ?s' \<noteq> getDebouncedLevel ?s'"
    using snoc.prems by (simp add: x)
  have "\<exists>xs tj ys. tr @ [(lvl, t)] = xs @ (getLastLevel ?s', tj) # ys \<and>
           (\<forall>y\<in>set ys. fst y = getLastLevel ?s') \<and> lastDebounceTime ?s' = now (clock tj)"
  proof (cases "getLastLevel ?s = lvl")
    case False
    then have "getLastLevel ?d = lvl" "lastDebounceTime ?d = now (clock t)"
      by (simp_all add: debounce_changed)
    then have "tr @ [(lvl, t)] = tr @ (getLastLevel ?s', t) # [] \<and>
        (\<forall>y\<in>set []. fst y = getLastLevel ?s') \<and> lastDebounceTime ?s' = now (clock t)"
      by (simp add: s')
    then show ?thesis by blast
  next
    case same: True
    show ?thesis
    proof (cases "ucast (drop_bit 2 (debounce_ms ?s)) \<le> now (clock t) - lastDebounceTime ?s")
      case True
      then have "getLastLevel ?d = getDebouncedLevel ?d"
        using same by (simp add: debounce_settled)
      with prems show ?thesis by (simp add: s')
    next
      case False
      then have d: "?d = ?s" using same by (rule debounce_waiting [rotated])
      then have pend: "getLastLevel ?s \<noteq> getDebouncedLevel ?s"
        using prems by (simp add: s')
      from snoc.IH [OF pend] obtain xs tj ys where
        tr: "tr = xs @ (getLastLevel ?s, tj) # ys" and
        ys: "\<forall>y\<in>set ys. fst y = getLastLevel ?s" and
        tj: "lastDebounceTime ?s = now (clock tj)"
        by blast
      have "tr @ [(lvl, t)] = xs @ (getLastLevel ?s', tj) # (ys @ [(lvl, t)])"
        using tr by (simp add: s' d)
      moreover have "\<forall>y\<in>set (ys @ [(lvl, t)]). fst y = getLastLevel ?s'"
        using ys same by (simp add: s' d)
      moreover have "lastDebounceTime ?s' = now (clock tj)"
        using tj by (simp add: s' d)
      ultimately show ?thesis by blast
    qed
  qed
  then show ?case by (simp only: x)
qed

lemma unat_debounce_ticks:
  "unat (ucast (drop_bit 2 (d :: 8 word)) :: 16 word) = unat d div 4"
proof -
  have "unat (drop_bit 2 d) < 2 ^ 16"
    using unsigned_less [of "drop_bit 2 d", where 'a = nat] by simp
  then have "unat (ucast (drop_bit 2 d) :: 16 word) = unat (drop_bit 2 d)"
    by (simp add: unsigned_ucast_eq take_bit_nat_eq_self)
  also have "unat (drop_bit 2 d) = drop_bit 2 (unat d)"
    by (rule unat_drop_bit_eq)
  also have "\<dots> = unat d div 4"
    by (simp add: drop_bit_eq_div)
  finally show ?thesis .
qed

lemma debounce_level_changes:
  assumes "getDebouncedLevel (fst (debounce b level m)) \<noteq> getDebouncedLevel b"
  shows "getLastLevel b = level"
    and "ucast (drop_bit 2 (debounce_ms b)) \<le> now m - lastDebounceTime b"
    and "getDebouncedLevel (fst (debounce b level m)) = level"
  using assms by (auto simp add: debounce_def Let_def split: if_splits)

section \<open>The claims\<close>

text \<open>
  The traces of the gesture claims are sequences of (debounced level, reading of
  \<open>millis()\<close>) pairs, one per call of \<open>_fsm\<close>.  For a single click and a long press
  the readings are \<open>clock t\<close> of true times \<open>t\<close>, and the durations are differences
  of true times.  For the triple click and the click count, waiting times are measured
  as \<open>_fsm\<close> measures them, by \<open>elapsed\<close> from the time stamp of the call that
  entered the state.  The traces of the debounce claim are sequences of (raw level,
  true time) pairs, one per call of \<open>tick\<close>.
\<close>

subsection \<open>The debounce filter\<close>

text \<open>
  C1 (as amended).  Take an object whose last raw level equals its debounced level (a
  fresh object is one) and any sequence of \<open>tick\<close> calls at non-decreasing times.
  If the last call changes the debounced level, then the new level is the raw level of
  that call, the raw level was recorded at an earlier call at time \<open>tj\<close>, every call
  since had the same raw level, and the 4 ms tick counter advanced by at least
  \<open>debounce_ms div 4\<close> between the two calls, so that at least
  \<open>4 * (debounce_ms div 4) - 3\<close> milliseconds passed (45 for the default 50), not
  necessarily \<open>debounce_ms\<close>.  For one call on any object: the debounced level changes
  only when the raw level equals the last one seen and the tick difference has reached
  \<open>debounce_ms >> 2\<close>; a call whose raw level differs from the last one seen records
  the level and the time stamp and leaves the debounced level unchanged.
\<close>

theorem debounce_changes_only_when_settled:
  assumes "getLastLevel b = getDebouncedLevel b"
    and "sorted (map snd (pre @ [(lvl, t)]))"
    and "getDebouncedLevel (fst (tick_run b (pre @ [(lvl, t)]))) \<noteq>
         getDebouncedLevel (fst (tick_run b pre))"
  shows "(\<exists>xs tj ys. pre = xs @ (lvl, tj) # ys \<and> (\<forall>x\<in>set ys. fst x = lvl) \<and>
            unat (debounce_ms b) div 4 \<le> t div 4 - tj div 4 \<and>
            4 * (unat (debounce_ms b) div 4) \<le> t - tj + 3) \<and>
         getDebouncedLevel (fst (tick_run b (pre @ [(lvl, t)]))) = lvl \<and>
         (getDebouncedLevel (fst (tick s level m1 m2)) \<noteq> getDebouncedLevel s \<longrightarrow>
            getLastLevel s = level \<and>
            ucast (drop_bit 2 (debounce_ms s)) \<le> now m1 - lastDebounceTime s \<and>
            getDebouncedLevel (fst (tick s level m1 m2)) = level) \<and>
         (getLastLevel s \<noteq> level \<longrightarrow>
            getLastLevel (fst (tick s level m1 m2)) = level \<and>
            lastDebounceTime (fst (tick s level m1 m2)) = now m1 \<and>
            getDebouncedLevel (fst (tick s level m1 m2)) = getDebouncedLevel s)"
proof -
  let ?s = "fst (tick_run b pre)"
  let ?d = "fst (debounce ?s lvl (clock t))"
  have chg: "getDebouncedLevel ?d \<noteq> getDebouncedLevel ?s"
    using assms(3) by (simp add: tick_run_snoc tick_frame)
  have same: "getLastLevel ?s = lvl"
    and cond: "ucast (drop_bit 2 (debounce_ms ?s)) \<le> now (clock t) - lastDebounceTime ?s"
    and new: "getDebouncedLevel ?d = lvl"
    using debounce_level_changes [OF chg] by simp_all
  have pend: "getLastLevel ?s \<noteq> getDebouncedLevel ?s"
    using chg same new by simp
  from tick_run_pending [OF assms(1) pend] same obtain xs tj ys where
    pre: "pre = xs @ (lvl, tj) # ys" and
    ys: "\<forall>x\<in>set ys. fst x = lvl" and
    tj: "lastDebounceTime ?s = now (clock tj)"
    by auto
  have le: "tj \<le> t"
    using assms(2) by (simp add: pre sorted_append)
  have "unat (ucast (drop_bit 2 (debounce_ms ?s)) :: 16 word) \<le> unat (now (clock t) - now (clock tj))"
    using cond by (simp add: tj word_le_nat_alt)
  then have "unat (debounce_ms b) div 4 \<le> (t div 4 - tj div 4) mod 65536"
    by (simp add: unat_debounce_ticks tick_run_debounce_ms unat_now_diff [OF le])
  also have "\<dots> \<le> t div 4 - tj div 4"
    by (rule mod_less_eq_dividend)
  finally have ticks: "unat (debounce_ms b) div 4 \<le> t div 4 - tj div 4" .
  have ms: "4 * (unat (debounce_ms b) div 4) \<le> t - tj + 3"
    using ticks ticks_bounds(2) [OF le] by linarith
  have 1: "\<exists>xs tj ys. pre = xs @ (lvl, tj) # ys \<and> (\<forall>x\<in>set ys. fst x = lvl) \<and>
            unat (debounce_ms b) div 4 \<le> t div 4 - tj div 4 \<and>
            4 * (unat (debounce_ms b) div 4) \<le> t - tj + 3"
    using pre ys ticks ms by blast
  have 2: "getDebouncedLevel (fst (tick_run b (pre @ [(lvl, t)]))) = lvl"
    using new by (simp add: tick_run_snoc tick_frame)
  have 3: "getDebouncedLevel (fst (tick s level m1 m2)) \<noteq> getDebouncedLevel s \<longrightarrow>
            getLastLevel s = level \<and>
            ucast (drop_bit 2 (debounce_ms s)) \<le> now m1 - lastDebounceTime s \<and>
            getDebouncedLevel (fst (tick s level m1 m2)) = level"
    using debounce_level_changes [of s level m1] by (simp add: tick_frame)
  have 4: "getLastLevel s \<noteq> level \<longrightarrow>
            getLastLevel (fst (tick s level m1 m2)) = level \<and>
            lastDebounceTime (fst (tick s level m1 m2)) = now m1 \<and>
            getDebouncedLevel (fst (tick s level m1 m2)) = getDebouncedLevel s"
    by (simp add: tick_frame debounce_changed)
  from 1 2 3 4 show ?thesis by blast
qed

theorem debounce_changes_only_when_settled_witness:
  "getDebouncedLevel (fst (tick_run (OneButtonTiny_new 2 True True) ([(False, 102), (True, 103)] @ [(True, 148)])))
     \<noteq> getDebouncedLevel (fst (tick_run (OneButtonTiny_new 2 True True) [(False, 102), (True, 103)])) \<and>
   (\<exists>xs tj ys. [(False, 102), (True, 103)] = xs @ (True, tj) # ys \<and>
      unat (debounce_ms (OneButtonTiny_new 2 True True)) div 4 \<le> 148 div 4 - tj div 4)"
proof -
  let ?b = "OneButtonTiny_new 2 True True"
  have 1: "getLastLevel ?b = getDebouncedLevel ?b"
    by code_simp
  have 2: "sorted (map snd ([(False, 102), (True, 103)] @ [(True, 148 :: nat)]))"
    by simp
  have 3: "getDebouncedLevel (fst (tick_run ?b ([(False, 102), (True, 103)] @ [(True, 148)]))) \<noteq>
           getDebouncedLevel (fst (tick_run ?b [(False, 102), (True, 103)]))"
    by code_simp
  show ?thesis
    using 3 debounce_changes_only_when_settled [OF 1 2 3] by blast
qed

text \<open>
  C1 as stated fails.  A fresh button has \<open>debounce_ms = 50\<close>.  The raw level is
  inactive at 102 ms, active at 103 ms and at 148 ms: the call at 148 ms makes the
  debounced level active, 46 ms after the raw level was last seen inactive; by the
  filter's own time stamps the level has been active for 48 ms.
\<close>

theorem debounce_settles_before_debounceTime:
  "\<not> getDebouncedLevel (fst (tick_run (OneButtonTiny_new 2 True True) [(False, 102), (True, 103)])) \<and>
   getDebouncedLevel (fst (tick_run (OneButtonTiny_new 2 True True) [(False, 102), (True, 103), (True, 148)])) \<and>
   148 - 102 < unat (debounce_ms (OneButtonTiny_new 2 True True)) \<and>
   elapsed (now (clock 103)) (clock 148) < ucast (debounce_ms (OneButtonTiny_new 2 True True))"
  by code_simp

subsection \<open>reset\<close>

text \<open>
  C3 (as amended).  \<open>reset()\<close> called on any object puts the state machine back to its
  construction-time values: state bits \<open>OCS_INIT\<close>, click count 0, \<open>_startTime\<close> 0
  and the legacy \<open>_state\<close> member \<open>OCS_INIT\<close>, so that \<open>isIdle()\<close> returns true
  afterwards.  The debounce state is not touched: the last raw level, the time stamp of
  its last change and the debounced level are what they were before the call.
\<close>

theorem reset_restores_fsm_state_only:
  "getState (reset b) = OCS_INIT \<and> getClicks (reset b) = 0 \<and> startTime (reset b) = 0 \<and>
   state (reset b) = OCS_INIT \<and> isIdle (reset b) \<and>
   getLastLevel (reset b) = getLastLevel b \<and>
   lastDebounceTime (reset b) = lastDebounceTime b \<and>
   getDebouncedLevel (reset b) = getDebouncedLevel b"
  by (simp add: isIdle_def)

text \<open>
  C3 as stated fails.  A fresh active-low button on pin 2 gets \<open>tick(true)\<close> at
  \<open>millis() = 100\<close> and again at 200: the debounce filter has recorded the level, the
  time stamp 25 and the debounced level.  After \<open>reset()\<close> all three still differ from
  their values in a fresh object.
\<close>

theorem reset_keeps_debounce_state_counterexample:
  "getLastLevel (reset (fst (tick (fst (tick (OneButtonTiny_new 2 True True) True 100 100)) True 200 200)))
     \<noteq> getLastLevel (OneButtonTiny_new 2 True True) \<and>
   lastDebounceTime (reset (fst (tick (fst (tick (OneButtonTiny_new 2 True True) True 100 100)) True 200 200)))
     \<noteq> lastDebounceTime (OneButtonTiny_new 2 True True) \<and>
   getDebouncedLevel (reset (fst (tick (fst (tick (OneButtonTiny_new 2 True True) True 100 100)) True 200 200)))
     \<noteq> getDebouncedLevel (OneButtonTiny_new 2 True True)"
  by code_simp

subsection \<open>Single click\<close>

text \<open>
  C4 (as amended).  The state machine is in \<open>OCS_INIT\<close> and a click callback is
  attached; times are true times in milliseconds.  The trace is: calls with the level
  inactive; one press-release cycle in which every call that sees the button down comes
  at most \<open>press_ms - 3\<close> ms after the call that saw the press; the call that counts
  the release; and calls with the level inactive, none earlier than the call that saw
  the release and one of them at least \<open>click_ms + 3\<close> ms (and at most 65532 ms) after
  it.  Then exactly one click callback is invoked, no double-click and no long-press
  callback, and the state machine is back in \<open>OCS_INIT\<close>.  The click callback is
  invoked at the first of these calls at which the waiting time, measured in 4 ms ticks,
  has reached \<open>click_ms\<close>: no earlier than \<open>click_ms - 3\<close> ms after the release was
  seen, and possibly up to 3 ms after \<open>click_ms\<close> has passed.
\<close>

theorem single_click_fires_within_4ms_of_window:
  assumes "getState b = OCS_INIT" and "clickFunc b \<noteq> None"
    and "\<forall>t\<in>set hs. tp \<le> t \<and> t - tp + 3 \<le> unat (press_ms b)"
    and "\<forall>t\<in>set ws. r \<le> t"
    and "x \<in> set ws" and "x - r \<le> 65532" and "unat (click_ms b) + 3 \<le> x - r"
  shows "snd (fsm_run b (released (map clock pre) @
                 click_cycle (clock tp) (map clock hs) (clock r) False (clock c) @
                 released (map clock ws))) = [Click] \<and>
         getState (fst (fsm_run b (released (map clock pre) @
                 click_cycle (clock tp) (map clock hs) (clock r) False (clock c) @
                 released (map clock ws)))) = OCS_INIT \<and>
         (\<exists>as y bs. ws = as @ y # bs \<and>
            snd (fsm_run b (released (map clock pre) @
                 click_cycle (clock tp) (map clock hs) (clock r) False (clock c) @
                 released (map clock as))) = [] \<and>
            snd (fsm_run b (released (map clock pre) @
                 click_cycle (clock tp) (map clock hs) (clock r) False (clock c) @
                 released (map clock as) @ [(False, clock y)])) = [Click] \<and>
            unat (click_ms b) \<le> y - r + 3)"
proof -
  let ?P = "\<lambda>t. click_ms b \<le> elapsed (now (clock r)) (clock t)"
  let ?cycle = "released (map clock pre) @
                 click_cycle (clock tp) (map clock hs) (clock r) False (clock c)"
  have hs: "\<forall>m\<in>set (map clock hs). \<not> press_ms b < elapsed (now (clock tp)) m"
    using assms(3) by (auto simp add: not_less intro: elapsed_le_threshold)
  have "r \<le> x" using assms(4,5) by blast
  then have "?P x"
    using assms(6,7) by (rule elapsed_ge_threshold)
  with assms(5) have "\<exists>t\<in>set ws. ?P t" by blast
  from split_list_first_prop [OF this]
  obtain as y bs where ws: "ws = as @ y # bs" and y: "?P y"
    and as: "\<forall>a\<in>set as. \<not> ?P a"
    by blast
  have as': "\<forall>m\<in>set (map clock as). \<not> click_ms b \<le> elapsed (now (clock r)) m"
    using as by simp
  have start: "in_fsm_state b OCS_INIT b"
    using in_fsm_state_self [of b] assms(1) by simp
  have pending: "fsm_triple (in_fsm_state b OCS_INIT) ?cycle []
      (in_state b OCS_COUNT 1 (now (clock r)))"
    by (rule run_to_pending_click [OF hs])
  note t = run_COUNT_first_timeout [OF as' y]
  have 1: "snd (fsm_run b (?cycle @ released (map clock as))) = []"
    using fsm_tripleD [OF fsm_triple_seq [OF pending t(1)] start] by simp
  have 2: "snd (fsm_run b (?cycle @ released (map clock as) @ [(False, clock y)])) = [Click]"
    using fsm_tripleD [OF fsm_triple_seq [OF pending t(2)] start] assms(2) by simp
  have 3: "snd (fsm_run b (?cycle @ released (map clock ws))) = [Click] \<and>
           getState (fst (fsm_run b (?cycle @ released (map clock ws)))) = OCS_INIT"
    using fsm_tripleD [OF fsm_triple_seq [OF pending t(3) [of "map clock bs"]] start] assms(2)
    by (simp add: ws in_fsm_state_def)
  have "r \<le> y" using assms(4) ws by simp
  from unat_elapsed_le [OF this] y
  have 4: "unat (click_ms b) \<le> y - r + 3"
    by (simp add: word_le_nat_alt)
  have 5: "\<exists>as y bs. ws = as @ y # bs \<and>
            snd (fsm_run b (?cycle @ released (map clock as))) = [] \<and>
            snd (fsm_run b (?cycle @ released (map clock as) @ [(False, clock y)])) = [Click] \<and>
            unat (click_ms b) \<le> y - r + 3"
    using ws 1 2 4 by blast
  from 3 5 show ?thesis
    by simp
qed

theorem single_click_fires_within_4ms_of_window_witness:
  "snd (fsm_run (attachClick (OneButtonTiny_new 2 True True) (Some 1))
         (released (map clock [0]) @
          click_cycle (clock 1000) (map clock [1010, 1020]) (clock 1040) False (clock 1044) @
          released (map clock [1100, 1200, 1443, 1600]))) = [Click]"
proof -
  let ?b = "attachClick (OneButtonTiny_new 2 True True) (Some 1)"
  have 1: "getState ?b = OCS_INIT" by (simp add: getState_new)
  have 2: "clickFunc ?b \<noteq> None" by simp
  have 3: "\<forall>t\<in>set [1010, 1020]. (1000 :: nat) \<le> t \<and> t - 1000 + 3 \<le> unat (press_ms ?b)"
    by simp
  have 4: "\<forall>t\<in>set [1100, 1200, 1443, 1600]. (1040 :: nat) \<le> t"
    by simp
  have 5: "(1443 :: nat) \<in> set [1100, 1200, 1443, 1600]" by simp
  have 6: "(1443 :: nat) - 1040 \<le> 65532" by simp
  have 7: "unat (click_ms ?b) + 3 \<le> 1443 - 1040" by simp
  show ?thesis
    using single_click_fires_within_4ms_of_window [OF 1 2 3 4 5 6 7, of "[0]" 1044] by simp
qed

text \<open>
  C4 as stated fails.  A fresh button with click and double-click callbacks has its
  click window set to 402 ms.  The release is seen at 1040 ms and the level is still
  inactive at 1442 ms, 402 ms later: no callback has been invoked, because the waiting
  time is measured as 400 ms.  A press seen at 1443 ms is then counted into the same
  group, and the whole trace invokes the double-click callback and never the click
  callback.
\<close>

theorem single_click_late_counterexample:
  "snd (fsm_run (setClickMs (attachDoubleClick (attachClick (OneButtonTiny_new 2 True True)
                   (Some 1)) (Some 2)) 402)
         (click_cycle (clock 1000) [clock 1020] (clock 1040) False (clock 1044) @
          released [clock 1240, clock 1442])) = [] \<and>
   1442 - 1040 = unat (click_ms (setClickMs (attachDoubleClick (attachClick
                   (OneButtonTiny_new 2 True True) (Some 1)) (Some 2)) 402)) \<and>
   snd (fsm_run (setClickMs (attachDoubleClick (attachClick (OneButtonTiny_new 2 True True)
                   (Some 1)) (Some 2)) 402)
         (click_cycle (clock 1000) [clock 1020] (clock 1040) False (clock 1044) @
          released [clock 1240, clock 1442] @
          click_cycle (clock 1443) [clock 1460] (clock 1480) False (clock 1484) @
          released [clock 1488, clock 2000])) = [DoubleClick]"
  by code_simp

subsection \<open>Long press\<close>

text \<open>
  C5 (as amended).  The state machine is in \<open>OCS_INIT\<close>, or in \<open>OCS_COUNT\<close> with
  a click pending, and a long-press callback is attached; times are true times in
  milliseconds.  The press is seen at \<open>tp\<close>, the button is seen down at the calls
  \<open>hs\<close>, none earlier than \<open>tp\<close>, and one of them comes at least
  \<open>press_ms + 4\<close> ms (and at most 65532 ms) after \<open>tp\<close>.  Then over the whole trace,
  with the button released afterwards and left inactive, exactly one long-press callback
  is invoked and no click or double-click callback, and the state machine is back in
  \<open>OCS_INIT\<close>.  The callback is invoked at the first call of \<open>hs\<close> at which the
  waiting time, measured in 4 ms ticks, exceeds \<open>press_ms\<close>: no callback is invoked
  before that call, and it comes no earlier than \<open>press_ms - 2\<close> ms after \<open>tp\<close>.
\<close>

theorem long_press_fires_at_4ms_threshold:
  assumes "getState b = OCS_INIT \<or> getState b = OCS_COUNT"
    and "longPressStartFunc b \<noteq> None"
    and "\<forall>t\<in>set hs. tp \<le> t"
    and "x \<in> set hs" and "x - tp \<le> 65532" and "unat (press_ms b) + 4 \<le> x - tp"
  shows "snd (fsm_run b ((True, clock tp) # held (map clock hs) @
                 (False, clock r) # (lvl, clock e) # released (map clock post))) = [LongPressStart] \<and>
         getState (fst (fsm_run b ((True, clock tp) # held (map clock hs) @
                 (False, clock r) # (lvl, clock e) # released (map clock post)))) = OCS_INIT \<and>
         (\<exists>as y bs. hs = as @ y # bs \<and>
            snd (fsm_run b ((True, clock tp) # held (map clock as))) = [] \<and>
            snd (fsm_run b ((True, clock tp) # held (map clock as) @ [(True, clock y)]))
              = [LongPressStart] \<and>
            unat (press_ms b) < y - tp + 3)"
proof -
  let ?P = "\<lambda>t. press_ms b < elapsed (now (clock tp)) (clock t)"
  have "tp \<le> x" using assms(3,4) by blast
  then have "?P x"
    using assms(5,6) by (rule elapsed_gt_threshold)
  with assms(4) have "\<exists>t\<in>set hs. ?P t" by blast
  from split_list_first_prop [OF this]
  obtain as y bs where hs: "hs = as @ y # bs" and y: "?P y"
    and as: "\<forall>a\<in>set as. \<not> ?P a"
    by blast
  have as': "\<forall>m\<in>set (map clock as). \<not> press_ms b < elapsed (now (clock tp)) m"
    using as by simp
  from step_pressed [OF assms(1), of "clock tp"] obtain n where
    down: "in_state b OCS_DOWN n (now (clock tp)) (fst (fsm b True (clock tp)))"
    and ev0: "snd (fsm b True (clock tp)) = []"
    by blast
  let ?d = "fst (fsm b True (clock tp))"
  note r = run_DOWN_first_long [OF as' y, of n]
  have 1: "snd (fsm_run ?d (held (map clock as))) = []"
    using fsm_tripleD [OF r(1) down] by simp
  have 2: "snd (fsm_run ?d (held (map clock as) @ [(True, clock y)])) = [LongPressStart]"
    using fsm_tripleD [OF r(2) down] assms(2) by simp
  have 3: "snd (fsm_run ?d (held (map clock hs) @
                 (False, clock r) # (lvl, clock e) # released (map clock post))) = [LongPressStart] \<and>
           getState (fst (fsm_run ?d (held (map clock hs) @
                 (False, clock r) # (lvl, clock e) # released (map clock post)))) = OCS_INIT"
    using fsm_tripleD [OF r(3) [of "map clock bs" "clock r" lvl "clock e" "map clock post"] down]
      assms(2)
    by (simp add: hs in_fsm_state_def)
  have "tp \<le> y" using assms(3) hs by simp
  from unat_elapsed_le [OF this] y
  have 4: "unat (press_ms b) < y - tp + 3"
    by (simp add: word_less_nat_alt)
  have 5: "\<exists>as y bs. hs = as @ y # bs \<and>
            snd (fsm_run b ((True, clock tp) # held (map clock as))) = [] \<and>
            snd (fsm_run b ((True, clock tp) # held (map clock as) @ [(True, clock y)]))
              = [LongPressStart] \<and>
            unat (press_ms b) < y - tp + 3"
    using hs 1 2 4 ev0 by (auto simp add: fsm_run_Cons simp del: fsm_run.simps)
  from 3 5 ev0 show ?thesis
    by (simp add: fsm_run_Cons del: fsm_run.simps)
qed

theorem long_press_fires_at_4ms_threshold_witness:
  "snd (fsm_run (attachLongPressStart (attachClick (OneButtonTiny_new 2 True True) (Some 1)) (Some 3))
         ((True, clock 1000) # held (map clock [1400, 1800, 1804, 2000]) @
            (False, clock 2500) # (False, clock 2504) # released (map clock [2600])))
     = [LongPressStart]"
proof -
  let ?b = "attachLongPressStart (attachClick (OneButtonTiny_new 2 True True) (Some 1)) (Some 3)"
  have 1: "getState ?b = OCS_INIT \<or> getState ?b = OCS_COUNT" by (simp add: getState_new)
  have 2: "longPressStartFunc ?b \<noteq> None" by simp
  have 3: "\<forall>t\<in>set [1400, 1800, 1804, 2000]. (1000 :: nat) \<le> t" by simp
  have 4: "(1804 :: nat) \<in> set [1400, 1800, 1804, 2000]" by simp
  have 5: "(1804 :: nat) - 1000 \<le> 65532" by simp
  have 6: "unat (press_ms ?b) + 4 \<le> 1804 - 1000" by simp
  show ?thesis
    using long_press_fires_at_4ms_threshold [OF 1 2 3 4 5 6, of 2500 False 2504 "[2600]"]
    by simp
qed

text \<open>
  C5 as stated fails.  A fresh button with click and long-press callbacks has the
  default \<open>press_ms = 800\<close>.  The press is seen at 1000 ms and the button is still down
  at 1803 ms, 803 ms later; the waiting time is measured as 800 ms, which does not exceed
  the threshold.  The release is seen at 1804 ms: no long-press callback is invoked, and
  the click callback is.
\<close>

theorem long_press_missed_counterexample:
  "snd (fsm_run (attachLongPressStart (attachClick (OneButtonTiny_new 2 True True) (Some 1)) (Some 3))
         [(True, clock 1000), (True, clock 1400), (True, clock 1803),
          (False, clock 1804), (False, clock 1808), (False, clock 2204)]) = [Click] \<and>
   unat (press_ms (attachLongPressStart (attachClick (OneButtonTiny_new 2 True True) (Some 1))
          (Some 3))) < 1803 - 1000"
  by code_simp

subsection \<open>Triple click\<close>

text \<open>
  C2 (as amended).  The state machine is in \<open>OCS_INIT\<close>, with click and
  double-click callbacks attached; presses are shorter than \<open>press_ms\<close> and the second
  press comes within \<open>click_ms\<close> of the first release.  Once the second release is
  counted, the first call with an inactive level invokes the double-click callback at
  once, without waiting for \<open>click_ms\<close>, and returns to \<open>OCS_INIT\<close>.  A third
  press-release cycle seen after that call is a group of its own and invokes the click
  callback when \<open>click_ms\<close> has passed: the three cycles invoke double-click, then
  click.  Only when the third press is seen on the very call after the one that counted
  the second release does it join the group, which then invokes the double-click
  callback once and no click callback.  No other callback exists for three clicks.
\<close>

theorem triple_click_group_closes_at_two:
  assumes "getState b = OCS_INIT" and "clickFunc b \<noteq> None" and "doubleClickFunc b \<noteq> None"
    and "\<forall>m\<in>set h1. elapsed (now p1) m \<le> press_ms b"
    and "\<forall>m\<in>set w1. elapsed (now r1) m < click_ms b"
    and "\<forall>m\<in>set h2. elapsed (now p2) m \<le> press_ms b"
    and "\<forall>m\<in>set h3. elapsed (now p3) m \<le> press_ms b"
    and "\<forall>m\<in>set w3. elapsed (now r3) m < click_ms b"
    and "click_ms b \<le> elapsed (now r3) t3"
  shows "snd (fsm_run b (released pre @ click_cycle p1 h1 r1 False c1 @ released w1 @
                 click_cycle p2 h2 r2 l2 c2 @ [(False, f)])) = [DoubleClick] \<and>
         getState (fst (fsm_run b (released pre @ click_cycle p1 h1 r1 False c1 @ released w1 @
                 click_cycle p2 h2 r2 l2 c2 @ [(False, f)]))) = OCS_INIT \<and>
         snd (fsm_run b (released pre @ click_cycle p1 h1 r1 False c1 @ released w1 @
                 click_cycle p2 h2 r2 l2 c2 @ (False, f) #
                 released g @ click_cycle p3 h3 r3 False c3 @ released w3 @
                 (False, t3) # released post)) = [DoubleClick, Click] \<and>
         snd (fsm_run b (released pre @ click_cycle p1 h1 r1 False c1 @ released w1 @
                 click_cycle p2 h2 r2 l2 c2 @
                 click_cycle p3 h3 r3 l3 c3 @ (False, f3) # released post3)) = [DoubleClick]"
proof -
  have h1: "\<forall>m\<in>set h1. \<not> press_ms b < elapsed (now p1) m"
    using assms(4) by (simp add: not_less)
  have w1: "\<forall>m\<in>set w1. \<not> click_ms b \<le> elapsed (now r1) m"
    using assms(5) by (simp add: not_le)
  have h2: "\<forall>m\<in>set h2. \<not> press_ms b < elapsed (now p2) m"
    using assms(6) by (simp add: not_less)
  have h3: "\<forall>m\<in>set h3. \<not> press_ms b < elapsed (now p3) m"
    using assms(7) by (simp add: not_less)
  have w3: "\<forall>m\<in>set w3. \<not> click_ms b \<le> elapsed (now r3) m"
    using assms(8) by (simp add: not_le)
  have start: "in_fsm_state b OCS_INIT b"
    using in_fsm_state_self [of b] assms(1) by simp
  let ?two = "released pre @ click_cycle p1 h1 r1 False c1 @ released w1 @ click_cycle p2 h2 r2 l2 c2"
  have two: "fsm_triple (in_fsm_state b OCS_INIT) ?two [] (in_state b OCS_COUNT 2 (now r2))"
    by (rule run_two_clicks [OF h1 w1 h2])
  have dbl: "fsm_triple (in_state b OCS_COUNT 2 (now r2)) [(False, f)] [DoubleClick]
      (in_fsm_state b OCS_INIT)"
    using step_COUNT_double [of 2 b "now r2" f] assms(3) by simp
  have closed: "fsm_triple (in_fsm_state b OCS_INIT) (?two @ [(False, f)]) ([] @ [DoubleClick])
      (in_fsm_state b OCS_INIT)"
    by (rule fsm_triple_seq [OF two dbl])
  have third: "fsm_triple (in_fsm_state b OCS_INIT)
      (released g @ click_cycle p3 h3 r3 False c3 @ released w3 @ (False, t3) # released post)
      [Click] (in_fsm_state b OCS_INIT)"
    using run_single_click [OF h3 w3 assms(9), of g False c3 post] assms(2) by simp
  have later: "fsm_triple (in_fsm_state b OCS_INIT)
      ((?two @ [(False, f)]) @
         released g @ click_cycle p3 h3 r3 False c3 @ released w3 @ (False, t3) # released post)
      (([] @ [DoubleClick]) @ [Click]) (in_fsm_state b OCS_INIT)"
    by (rule fsm_triple_seq [OF closed third])
  have "fsm_triple (in_state b OCS_COUNT 2 (now r2)) (click_cycle p3 h3 r3 l3 c3) []
      (in_state b OCS_COUNT ((2 + 1) AND 3) (now r3))"
    by (rule run_cycle_from_COUNT [OF h3])
  then have c3: "fsm_triple (in_state b OCS_COUNT 2 (now r2)) (click_cycle p3 h3 r3 l3 c3) []
      (in_state b OCS_COUNT 3 (now r3))"
    by simp
  have dbl3: "fsm_triple (in_state b OCS_COUNT 3 (now r3)) [(False, f3)] [DoubleClick]
      (in_fsm_state b OCS_INIT)"
    using step_COUNT_double [of 3 b "now r3" f3] assms(3) by simp
  have "fsm_triple (in_state b OCS_COUNT 3 (now r3)) ((False, f3) # released post3)
      ([DoubleClick] @ []) (in_fsm_state b OCS_INIT)"
    by (rule fsm_triple_cons [OF dbl3 run_INIT_released])
  then have "fsm_triple (in_state b OCS_COUNT 2 (now r2))
      (click_cycle p3 h3 r3 l3 c3 @ (False, f3) # released post3)
      ([] @ [DoubleClick] @ []) (in_fsm_state b OCS_INIT)"
    by (rule fsm_triple_seq [OF c3])
  then have joined: "fsm_triple (in_fsm_state b OCS_INIT)
      (?two @ click_cycle p3 h3 r3 l3 c3 @ (False, f3) # released post3)
      ([] @ [] @ [DoubleClick] @ []) (in_fsm_state b OCS_INIT)"
    by (rule fsm_triple_seq [OF two])
  have 1: "snd (fsm_run b (?two @ [(False, f)])) = [DoubleClick] \<and>
           getState (fst (fsm_run b (?two @ [(False, f)]))) = OCS_INIT"
    using fsm_tripleD [OF closed start] by (simp add: in_fsm_state_def)
  have 2: "snd (fsm_run b ((?two @ [(False, f)]) @
         released g @ click_cycle p3 h3 r3 False c3 @ released w3 @ (False, t3) # released post))
       = [DoubleClick, Click]"
    using fsm_tripleD [OF later start] by simp
  have 3: "snd (fsm_run b (?two @ click_cycle p3 h3 r3 l3 c3 @ (False, f3) # released post3))
       = [DoubleClick]"
    using fsm_tripleD [OF joined start] by simp
  from 1 2 3 show ?thesis by simp
qed

theorem triple_click_group_closes_at_two_witness:
  "snd (fsm_run (attachDoubleClick (attachClick (OneButtonTiny_new 2 True True) (Some 1)) (Some 2))
         (released [0] @ click_cycle 1000 [1020] 1040 False 1044 @ released [1060] @
            click_cycle 1100 [1120] 1140 False 1144 @ [(False, 1148)])) = [DoubleClick] \<and>
   snd (fsm_run (attachDoubleClick (attachClick (OneButtonTiny_new 2 True True) (Some 1)) (Some 2))
         (released [0] @ click_cycle 1000 [1020] 1040 False 1044 @ released [1060] @
            click_cycle 1100 [1120] 1140 False 1144 @ (False, 1148) #
            released [1160] @ click_cycle 1200 [1220] 1240 False 1244 @ released [1400, 1600] @
            (False, 1700) # released [1800])) = [DoubleClick, Click] \<and>
   snd (fsm_run (attachDoubleClick (attachClick (OneButtonTiny_new 2 True True) (Some 1)) (Some 2))
         (released [0] @ click_cycle 1000 [1020] 1040 False 1044 @ released [1060] @
            click_cycle 1100 [1120] 1140 False 1144 @
            click_cycle 1200 [1220] 1240 False 1244 @ (False, 1248) # released [1300]))
     = [DoubleClick]"
proof -
  let ?b = "attachDoubleClick (attachClick (OneButtonTiny_new 2 True True) (Some 1)) (Some 2)"
  have 1: "getState ?b = OCS_INIT" by (simp add: getState_new)
  have 2: "clickFunc ?b \<noteq> None" by simp
  have 3: "doubleClickFunc ?b \<noteq> None" by simp
  have 4: "\<forall>m\<in>set [1020]. elapsed (now 1000) m \<le> press_ms ?b"
    by (simp add: elapsed_def now_def)
  have 5: "\<forall>m\<in>set [1060]. elapsed (now 1040) m < click_ms ?b"
    by (simp add: elapsed_def now_def)
  have 6: "\<forall>m\<in>set [1120]. elapsed (now 1100) m \<le> press_ms ?b"
    by (simp add: elapsed_def now_def)
  have 7: "\<forall>m\<in>set [1220]. elapsed (now 1200) m \<le> press_ms ?b"
    by (simp add: elapsed_def now_def)
  have 8: "\<forall>m\<in>set [1400, 1600]. elapsed (now 1240) m < click_ms ?b"
    by (simp add: elapsed_def now_def)
  have 9: "click_ms ?b \<le> elapsed (now 1240) 1700"
    by (simp add: elapsed_def now_def)
  show ?thesis
    using triple_click_group_closes_at_two [OF 1 2 3 4 5 6 7 8 9,
        of "[0]" 1044 1140 False 1144 1148 "[1160]" 1244 "[1800]" False 1248 "[1300]"]
    by simp
qed

text \<open>
  C2 as stated fails.  A fresh button with click and double-click callbacks gets three
  press-release cycles whose presses are 100 ms apart (250 ms apart in the second trace,
  which goes through \<open>tick\<close> and the debounce filter, called every 50 ms), with the
  default \<open>click_ms = 400\<close>.  The callbacks invoked are double-click and then click.
\<close>

theorem triple_click_fires_double_then_single:
  "snd (fsm_run (attachDoubleClick (attachClick (OneButtonTiny_new 2 True True) (Some 1)) (Some 2))
         (click_cycle 1000 [1020] 1040 False 1044 @
          click_cycle 1100 [1120] 1140 False 1144 @ (False, 1148) #
          click_cycle 1200 [1220] 1240 False 1244 @ released [1400, 1600] @ [(False, 1700)]))
     = [DoubleClick, Click] \<and>
   snd (tick_run (attachDoubleClick (attachClick (OneButtonTiny_new 2 True True) (Some 1)) (Some 2))
         [(True, 1000), (True, 1050), (False, 1100), (False, 1150), (False, 1200),
          (True, 1250), (True, 1300), (False, 1350), (False, 1400), (False, 1450),
          (True, 1500), (True, 1550), (False, 1600), (False, 1650), (False, 1700),
          (False, 1850), (False, 2050)])
     = [DoubleClick, Click]"
  by code_simp

subsection \<open>Elapsed time across a wrap of the clock\<close>

text \<open>
  C6 (as amended).  For clock readings taken at true times \<open>t1 \<le> t2\<close> at most
  65532 ms apart, the elapsed time computed from the stored time stamp is
  \<open>4 * (t2 div 4 - t1 div 4)\<close>: the duration at the 4 ms resolution of the time
  stamps, a multiple of 4 within 3 ms of \<open>t2 - t1\<close>.  This holds also when the 32-bit
  millisecond counter or the 16-bit tick counter wraps between the two readings.
\<close>

theorem elapsed_correct_to_4ms:
  assumes "t1 \<le> t2" and "t2 - t1 \<le> 65532"
  shows "unat (elapsed (now (clock t1)) (clock t2)) = 4 * (t2 div 4 - t1 div 4) \<and>
         t2 - t1 \<le> unat (elapsed (now (clock t1)) (clock t2)) + 3 \<and>
         unat (elapsed (now (clock t1)) (clock t2)) \<le> t2 - t1 + 3"
proof -
  have small: "4 * (t2 div 4 - t1 div 4) < 65536"
    using ticks_bounds(2) [OF assms(1)] assms(2) by linarith
  have e: "unat (elapsed (now (clock t1)) (clock t2)) = 4 * (t2 div 4 - t1 div 4)"
    using unat_elapsed [OF assms(1)] small by simp
  show ?thesis
    using e ticks_bounds [OF assms(1)] by simp
qed

theorem elapsed_correct_to_4ms_witness:
  "unat (elapsed (now (clock 4294967290)) (clock 4294968296)) = 1008 \<and>
   unat (elapsed (now (clock 262140)) (clock 262150)) = 8"
  using elapsed_correct_to_4ms [of 4294967290 4294968296] elapsed_correct_to_4ms [of 262140 262150]
  by simp

text \<open>
  C6 as stated fails: readings 3 ms apart give an elapsed time of 0, which is not
  positive, and readings at 1 ms and 4 ms give 4, not 3.
\<close>

theorem elapsed_not_exact:
  "elapsed (now (clock 0)) (clock 3) = 0 \<and> unat (elapsed (now (clock 1)) (clock 4)) = 4"
  by (simp add: elapsed_def now_def clock_def)

subsection \<open>Callbacks per call\<close>

text \<open>
  C7.  One call of \<open>_fsm\<close>, and so one call of either \<open>tick\<close>, invokes no user
  callback or exactly one, whatever the object, the level and the clock readings are.
\<close>

theorem tick_at_most_one_callback:
  "length (snd (fsm b activeLevel millis)) \<le> 1 \<and>
   length (snd (tick b level millis1 millis2)) \<le> 1 \<and>
   length (snd (tick_pin b rawLevel millis1 millis2)) \<le> 1"
proof -
  have f: "length (snd (fsm b' lvl m)) \<le> 1" for b' lvl m
    by (simp only: snd_fsm fsm_switch_at_most_one)
  have t: "length (snd (tick b' lvl m1 m2)) \<le> 1" for b' lvl m1 m2
    unfolding tick_def case_prod_beta Let_def by (rule f)
  have p: "length (snd (tick_pin b rawLevel millis1 millis2)) \<le> 1"
    unfolding tick_pin_def Let_def by (rule t)
  from f t p show ?thesis by blast
qed

subsection \<open>A state outside the enumeration\<close>

text \<open>
  C8.  When the three state bits hold a value that is none of the six enumerators, a
  call of \<open>_fsm\<close> is a \<open>reset()\<close> and invokes no callback; a \<open>tick\<close> therefore
  returns with the object reset after debouncing: state \<open>OCS_INIT\<close>, click count 0,
  \<open>isIdle()\<close> true, and no callback invoked.
\<close>

theorem unknown_state_resets:
  assumes "getState b \<notin> {OCS_INIT, OCS_DOWN, OCS_UP, OCS_COUNT, OCS_PRESS, OCS_PRESSEND}"
  shows "fsm b activeLevel millis = (reset b, []) \<and>
         tick b level millis1 millis2 = (reset (fst (debounce b level millis1)), []) \<and>
         getState (fst (tick b level millis1 millis2)) = OCS_INIT \<and>
         getClicks (fst (tick b level millis1 millis2)) = 0 \<and>
         isIdle (fst (tick b level millis1 millis2))"
proof -
  have f: "fsm b' lvl m = (reset b', [])" if "getState b' = getState b" for b' lvl m
    using assms that by (simp add: fsm_def fsm_switch_def reset_state_fixed)
  have t: "tick b level millis1 millis2 = (reset (fst (debounce b level millis1)), [])"
    by (simp add: tick_def f case_prod_beta)
  show ?thesis
    by (simp add: f t isIdle_def)
qed

theorem unknown_state_resets_witness:
  "getState ((OneButtonTiny_new 2 True True)\<lparr>flags := 0x18\<rparr>)
     \<notin> {OCS_INIT, OCS_DOWN, OCS_UP, OCS_COUNT, OCS_PRESS, OCS_PRESSEND} \<and>
   snd (tick ((OneButtonTiny_new 2 True True)\<lparr>flags := 0x18\<rparr>) True 100 100) = [] \<and>
   getState (fst (tick ((OneButtonTiny_new 2 True True)\<lparr>flags := 0x18\<rparr>) True 100 100)) = OCS_INIT"
proof -
  have h: "getState ((OneButtonTiny_new 2 True True)\<lparr>flags := 0x18\<rparr>)
     \<notin> {OCS_INIT, OCS_DOWN, OCS_UP, OCS_COUNT, OCS_PRESS, OCS_PRESSEND}"
    by (simp add: getState_def OneButtonTiny_new_def consts_defs OCS_defs)
  show ?thesis
    using h unknown_state_resets [OF h, of True 100 True 100 100] by simp
qed

subsection \<open>isIdle and the legacy state member\<close>

text \<open>
  C9.  \<open>isIdle()\<close> reads the legacy member \<open>_state\<close>.  After the constructor, after
  either \<open>tick\<close> and after \<open>reset()\<close> that member equals the state bits of
  \<open>_flags\<close>, so \<open>isIdle()\<close> is true exactly when the state machine is in
  \<open>OCS_INIT\<close>; a fresh object is idle.  The other public operations, the setters and
  the callback attachments, write neither the member nor the state bits.
\<close>

theorem isIdle_iff_state_Idle:
  "state (OneButtonTiny_new p activeLow pullupActive) = getState (OneButtonTiny_new p activeLow pullupActive) \<and>
   isIdle (OneButtonTiny_new p activeLow pullupActive) \<and>
   state (fst (tick b level millis1 millis2)) = getState (fst (tick b level millis1 millis2)) \<and>
   isIdle (fst (tick b level millis1 millis2)) = (getState (fst (tick b level millis1 millis2)) = OCS_INIT) \<and>
   state (fst (tick_pin b rawLevel millis1 millis2)) = getState (fst (tick_pin b rawLevel millis1 millis2)) \<and>
   isIdle (fst (tick_pin b rawLevel millis1 millis2)) = (getState (fst (tick_pin b rawLevel millis1 millis2)) = OCS_INIT) \<and>
   state (reset b) = getState (reset b) \<and>
   isIdle (reset b) = (getState (reset b) = OCS_INIT) \<and>
   state (setDebounceMs b d) = state b \<and> getState (setDebounceMs b d) = getState b \<and>
   state (setClickMs b ms) = state b \<and> getState (setClickMs b ms) = getState b \<and>
   state (setPressMs b ms) = state b \<and> getState (setPressMs b ms) = getState b \<and>
   state (attachClick b f) = state b \<and> getState (attachClick b f) = getState b \<and>
   state (attachDoubleClick b f) = state b \<and> getState (attachDoubleClick b f) = getState b \<and>
   state (attachLongPressStart b f) = state b \<and>
   getState (attachLongPressStart b f) = getState b"
proof -
  have new: "getState (OneButtonTiny_new p activeLow pullupActive) = OCS_INIT"
    by (simp add: getState_def OneButtonTiny_new_def consts_defs OCS_defs)
  have st: "state (OneButtonTiny_new p activeLow pullupActive) = OCS_INIT"
    by (simp add: OneButtonTiny_new_def)
  have f: "state (fst (fsm b' lvl m)) = getState (fst (fsm b' lvl m))" for b' lvl m
    by (simp add: fst_fsm)
  have t: "state (fst (tick b' lvl m1 m2)) = getState (fst (tick b' lvl m1 m2))" for b' lvl m1 m2
    by (simp add: tick_def f case_prod_beta)
  have set: "state (setDebounceMs b d) = state b" "getState (setDebounceMs b d) = getState b"
    "state (setClickMs b ms) = state b" "getState (setClickMs b ms) = getState b"
    "state (setPressMs b ms) = state b" "getState (setPressMs b ms) = getState b"
    "state (attachClick b f) = state b" "state (attachDoubleClick b f) = state b"
    "state (attachLongPressStart b f) = state b"
    by (simp_all add: setDebounceMs_def setClickMs_def setPressMs_def attachClick_def
        attachDoubleClick_def attachLongPressStart_def getState_def)
  show ?thesis
    by (simp add: new st t set tick_pin_def isIdle_def)
qed

subsection \<open>The click count\<close>

text \<open>
  C10.  The click count is the two low bits of \<open>_flags\<close>: it is at most 3 in every
  object.  The call that counts a release (state \<open>OCS_UP\<close>) stores the count plus one
  modulo 4.  Four press-release cycles, each press after the first release within
  \<open>click_ms\<close> and the third and fourth seen on the call right after the previous
  release was counted, invoke no callback and leave the count at 0 in \<open>OCS_COUNT\<close>;
  the time-out that follows invokes no callback either and returns to \<open>OCS_INIT\<close>.
\<close>

theorem click_count_two_bits:
  assumes "getState b0 = OCS_INIT"
    and "\<forall>m\<in>set h1. elapsed (now p1) m \<le> press_ms b0"
    and "\<forall>m\<in>set w1. elapsed (now r1) m < click_ms b0"
    and "\<forall>m\<in>set h2. elapsed (now p2) m \<le> press_ms b0"
    and "\<forall>m\<in>set h3. elapsed (now p3) m \<le> press_ms b0"
    and "\<forall>m\<in>set h4. elapsed (now p4) m \<le> press_ms b0"
    and "\<forall>m\<in>set w4. elapsed (now r4) m < click_ms b0"
    and "click_ms b0 \<le> elapsed (now r4) x"
  shows "getClicks b \<le> 3 \<and>
         (getState b = OCS_UP \<longrightarrow>
            getState (fst (fsm b lvl m)) = OCS_COUNT \<and>
            getClicks (fst (fsm b lvl m)) = (getClicks b + 1) AND 3 \<and>
            unat (getClicks (fst (fsm b lvl m))) = (unat (getClicks b) + 1) mod 4) \<and>
         snd (fsm_run b0 (released pre @ click_cycle p1 h1 r1 l1 c1 @ released w1 @
                click_cycle p2 h2 r2 l2 c2 @ click_cycle p3 h3 r3 l3 c3 @
                click_cycle p4 h4 r4 l4 c4)) = [] \<and>
         getState (fst (fsm_run b0 (released pre @ click_cycle p1 h1 r1 l1 c1 @ released w1 @
                click_cycle p2 h2 r2 l2 c2 @ click_cycle p3 h3 r3 l3 c3 @
                click_cycle p4 h4 r4 l4 c4))) = OCS_COUNT \<and>
         getClicks (fst (fsm_run b0 (released pre @ click_cycle p1 h1 r1 l1 c1 @ released w1 @
                click_cycle p2 h2 r2 l2 c2 @ click_cycle p3 h3 r3 l3 c3 @
                click_cycle p4 h4 r4 l4 c4))) = 0 \<and>
         snd (fsm_run b0 (released pre @ click_cycle p1 h1 r1 l1 c1 @ released w1 @
                click_cycle p2 h2 r2 l2 c2 @ click_cycle p3 h3 r3 l3 c3 @
                click_cycle p4 h4 r4 l4 c4 @ released w4 @ [(False, x)])) = [] \<and>
         getState (fst (fsm_run b0 (released pre @ click_cycle p1 h1 r1 l1 c1 @ released w1 @
                click_cycle p2 h2 r2 l2 c2 @ click_cycle p3 h3 r3 l3 c3 @
                click_cycle p4 h4 r4 l4 c4 @ released w4 @ [(False, x)]))) = OCS_INIT"
proof -
  have h1: "\<forall>m\<in>set h1. \<not> press_ms b0 < elapsed (now p1) m"
    using assms(2) by (simp add: not_less)
  have w1: "\<forall>m\<in>set w1. \<not> click_ms b0 \<le> elapsed (now r1) m"
    using assms(3) by (simp add: not_le)
  have h2: "\<forall>m\<in>set h2. \<not> press_ms b0 < elapsed (now p2) m"
    using assms(4) by (simp add: not_less)
  have h3: "\<forall>m\<in>set h3. \<not> press_ms b0 < elapsed (now p3) m"
    using assms(5) by (simp add: not_less)
  have h4: "\<forall>m\<in>set h4. \<not> press_ms b0 < elapsed (now p4) m"
    using assms(6) by (simp add: not_less)
  have w4: "\<forall>m\<in>set w4. \<not> click_ms b0 \<le> elapsed (now r4) m"
    using assms(7) by (simp add: not_le)
  have start: "in_fsm_state b0 OCS_INIT b0"
    using in_fsm_state_self [of b0] assms(1) by simp
  let ?four = "(released pre @ click_cycle p1 h1 r1 l1 c1 @ released w1 @ click_cycle p2 h2 r2 l2 c2) @
                click_cycle p3 h3 r3 l3 c3 @ click_cycle p4 h4 r4 l4 c4"
  have four: "fsm_triple (in_fsm_state b0 OCS_INIT) ?four [] (in_state b0 OCS_COUNT 0 (now r4))"
    by (rule run_four_clicks [OF h1 w1 h2 h3 h4])
  have "fsm_triple (in_fsm_state b0 OCS_INIT) (?four @ released w4 @ [(False, x)]) ([] @ [])
      (in_fsm_state b0 OCS_INIT)"
    by (rule fsm_triple_seq [OF four run_COUNT_zero_timeout [OF w4 assms(8)]])
  from fsm_tripleD [OF this start]
  have 1: "snd (fsm_run b0 (released pre @ click_cycle p1 h1 r1 l1 c1 @ released w1 @
                click_cycle p2 h2 r2 l2 c2 @ click_cycle p3 h3 r3 l3 c3 @
                click_cycle p4 h4 r4 l4 c4 @ released w4 @ [(False, x)])) = []"
    and 2: "getState (fst (fsm_run b0 (released pre @ click_cycle p1 h1 r1 l1 c1 @ released w1 @
                click_cycle p2 h2 r2 l2 c2 @ click_cycle p3 h3 r3 l3 c3 @
                click_cycle p4 h4 r4 l4 c4 @ released w4 @ [(False, x)]))) = OCS_INIT"
    by (simp_all add: in_fsm_state_def)
  from fsm_tripleD [OF four start]
  have 4: "snd (fsm_run b0 (released pre @ click_cycle p1 h1 r1 l1 c1 @ released w1 @
                click_cycle p2 h2 r2 l2 c2 @ click_cycle p3 h3 r3 l3 c3 @
                click_cycle p4 h4 r4 l4 c4)) = []"
    and 5: "getState (fst (fsm_run b0 (released pre @ click_cycle p1 h1 r1 l1 c1 @ released w1 @
                click_cycle p2 h2 r2 l2 c2 @ click_cycle p3 h3 r3 l3 c3 @
                click_cycle p4 h4 r4 l4 c4))) = OCS_COUNT"
    and 6: "getClicks (fst (fsm_run b0 (released pre @ click_cycle p1 h1 r1 l1 c1 @ released w1 @
                click_cycle p2 h2 r2 l2 c2 @ click_cycle p3 h3 r3 l3 c3 @
                click_cycle p4 h4 r4 l4 c4))) = 0"
    by (simp_all add: in_state_def)
  have 3: "getState b = OCS_UP \<longrightarrow>
            getState (fst (fsm b lvl m)) = OCS_COUNT \<and>
            getClicks (fst (fsm b lvl m)) = (getClicks b + 1) AND 3 \<and>
            unat (getClicks (fst (fsm b lvl m))) = (unat (getClicks b) + 1) mod 4"
    by (simp add: fsm_UP_counts unat_incr_and_3)
  from 1 2 3 4 5 6 getClicks_le_3 [of b] show ?thesis by blast
qed

theorem click_count_two_bits_witness:
  "getClicks (fst (fsm_run
      (attachLongPressStart (attachDoubleClick (attachClick (OneButtonTiny_new 2 True True)
         (Some 1)) (Some 2)) (Some 3))
      (released [0] @ click_cycle 1000 [1020] 1040 True 1080 @ released [] @
         click_cycle 1120 [1140] 1160 True 1200 @ click_cycle 1240 [1260] 1280 True 1320 @
         click_cycle 1360 [1380] 1400 False 1440))) = 0 \<and>
   snd (fsm_run
      (attachLongPressStart (attachDoubleClick (attachClick (OneButtonTiny_new 2 True True)
         (Some 1)) (Some 2)) (Some 3))
      (released [0] @ click_cycle 1000 [1020] 1040 True 1080 @ released [] @
         click_cycle 1120 [1140] 1160 True 1200 @ click_cycle 1240 [1260] 1280 True 1320 @
         click_cycle 1360 [1380] 1400 False 1440 @ released [1600] @ [(False, 1804)])) = []"
proof -
  let ?b = "attachLongPressStart (attachDoubleClick (attachClick (OneButtonTiny_new 2 True True)
         (Some 1)) (Some 2)) (Some 3)"
  have 1: "getState ?b = OCS_INIT" by (simp add: getState_new)
  have 2: "\<forall>m\<in>set [1020]. elapsed (now 1000) m \<le> press_ms ?b"
    by (simp add: elapsed_def now_def)
  have 3: "\<forall>m\<in>set []. elapsed (now 1040) m < click_ms ?b"
    by simp
  have 4: "\<forall>m\<in>set [1140]. elapsed (now 1120) m \<le> press_ms ?b"
    by (simp add: elapsed_def now_def)
  have 5: "\<forall>m\<in>set [1260]. elapsed (now 1240) m \<le> press_ms ?b"
    by (simp add: elapsed_def now_def)
  have 6: "\<forall>m\<in>set [1380]. elapsed (now 1360) m \<le> press_ms ?b"
    by (simp add: elapsed_def now_def)
  have 7: "\<forall>m\<in>set [1600]. elapsed (now 1400) m < click_ms ?b"
    by (simp add: elapsed_def now_def)
  have 8: "click_ms ?b \<le> elapsed (now 1400) 1804"
    by (simp add: elapsed_def now_def)
  show ?thesis
    using click_count_two_bits [OF 1 2 3 4 5 6 7 8, where pre = "[0]" and ?l1.0 = True
        and ?c1.0 = 1080 and ?r2.0 = 1160 and ?l2.0 = True and ?c2.0 = 1200 and ?r3.0 = 1280
        and ?l3.0 = True and ?c3.0 = 1320 and ?l4.0 = False and ?c4.0 = 1440]
    by simp
qed

end
